theory Spec2Isabelle
  imports Main "HOL-Library.AList"
begin

section \<open>Go integers\<close>

text \<open>
  Go's \<open>int\<close> is a 64-bit two's complement integer on the platforms the service is
  built for. Values are modelled as HOL integers; every addition and subtraction of the
  source goes through \<open>wrap64\<close>, which brings the mathematical result back into the
  range \<open>[-2^63, 2^63)\<close> exactly as the machine does.
\<close>

definition MaxInt32 :: int where
  "MaxInt32 = 2147483647"

definition MaxInt64 :: int where
  "MaxInt64 = 9223372036854775807"

definition wrap64 :: "int \<Rightarrow> int" where
  "wrap64 x = (x + 9223372036854775808) mod 18446744073709551616 - 9223372036854775808"

definition add64 :: "int \<Rightarrow> int \<Rightarrow> int" where
  "add64 a b = wrap64 (a + b)"

definition sub64 :: "int \<Rightarrow> int \<Rightarrow> int" where
  "sub64 a b = wrap64 (a - b)"

section \<open>The pack solver (package calculator)\<close>

text \<open>
  \<open>Calculate\<close> returns an error value in three places; a run-time panic of the Go
  runtime (a negative length given to \<open>make\<close>, an index out of range) is a fourth
  outcome, \<open>RuntimePanic\<close>.
\<close>

datatype calc_error =
    InvalidAmount   \<comment> \<open>"amount must be positive"\<close>
  | NoConfig        \<comment> \<open>"no pack sizes available"\<close>
  | NoSolution      \<comment> \<open>"no valid pack combination found"\<close>
  | RuntimePanic

record Calculator =
  packSizes :: "int list"

text \<open>\<open>NewCalculator\<close> copies the argument and sorts the copy ascending.\<close>

definition NewCalculator :: "int list \<Rightarrow> Calculator" where
  "NewCalculator ps = \<lparr> packSizes = sort ps \<rparr>"

text \<open>
  \<open>make([]int, n)\<close>. The runtime's \<open>makeslice\<close> panics ("len out of range") when \<open>n\<close> is
  negative and when the size of the array, 8 bytes for each \<open>int\<close>, overflows or is larger
  than \<open>maxAlloc\<close>, the size of the address space of the heap: \<open>2^48\<close> bytes on the 64-bit
  platforms the service is built for. So the longest slice of \<open>int\<close> has \<open>2^45\<close> elements.
  A request that passes this check gets a zeroed slice of length \<open>n\<close>; whether the machine
  has that much memory is not part of the model.
\<close>

definition maxAlloc :: int where
  "maxAlloc = 281474976710656"

definition make_ints :: "int \<Rightarrow> calc_error + int list" where
  "make_ints n =
     (if n < 0 \<or> 8 * n > maxAlloc then Inl RuntimePanic else Inr (replicate (nat n) 0))"

text \<open>A bounds-checked read \<open>xs[i]\<close>.\<close>

definition in_range :: "int list \<Rightarrow> int \<Rightarrow> bool" where
  "in_range xs i = (0 \<le> i \<and> i < int (length xs))"

text \<open>
  A Go \<open>map[int]int\<close> is an association list with distinct keys; reading a missing key
  gives 0. \<open>incr m k\<close> is the statement \<open>m[k]++\<close>.
\<close>

type_synonym packs = "(int \<times> int) list"

definition lookup0 :: "packs \<Rightarrow> int \<Rightarrow> int" where
  "lookup0 m k = (case map_of m k of None \<Rightarrow> 0 | Some c \<Rightarrow> c)"

definition incr :: "packs \<Rightarrow> int \<Rightarrow> packs" where
  "incr m k = AList.update k (add64 (lookup0 m k) 1) m"

text \<open>
  The body of the inner loop for the pack sizes still to be tried at state \<open>i\<close>:
  \<open>next := i + packSize\<close>, and when \<open>next <= maxTarget\<close> and \<open>dp[next] > dp[i]+1\<close> the
  two arrays are updated at \<open>next\<close>.
\<close>

fun inner :: "int \<Rightarrow> int \<Rightarrow> int list \<Rightarrow> int list \<times> int list \<Rightarrow> calc_error + int list \<times> int list" where
  "inner maxTarget i [] (dp, parent) = Inr (dp, parent)"
| "inner maxTarget i (packSize # rest) (dp, parent) =
     (let next = add64 i packSize in
      if next \<le> maxTarget then
        (if \<not> in_range dp next \<or> \<not> in_range dp i then Inl RuntimePanic
         else if dp ! nat next > add64 (dp ! nat i) 1 then
           (if \<not> in_range parent next then Inl RuntimePanic
            else inner maxTarget i rest
                   (dp[nat next := add64 (dp ! nat i) 1], parent[nat next := packSize]))
         else inner maxTarget i rest (dp, parent))
      else inner maxTarget i rest (dp, parent))"

text \<open>
  The outer loop \<open>for i := 0; i <= maxTarget; i++\<close>, started at \<open>i\<close>. A state whose
  \<open>dp\<close> entry is the sentinel \<open>math.MaxInt32\<close> is skipped. The loop is entered only
  after \<open>make([]int, maxTarget+1)\<close> has succeeded, so \<open>maxTarget + 1\<close> has not wrapped and
  neither does \<open>i++\<close> while \<open>i <= maxTarget\<close>.
\<close>

function outer :: "int \<Rightarrow> int list \<Rightarrow> int \<Rightarrow> int list \<times> int list \<Rightarrow> calc_error + int list \<times> int list" where
  "outer maxTarget sizes i (dp, parent) =
     (if i \<le> maxTarget then
        (if \<not> in_range dp i then Inl RuntimePanic
         else if dp ! nat i = MaxInt32 then outer maxTarget sizes (i + 1) (dp, parent)
         else (case inner maxTarget i sizes (dp, parent) of
                 Inl e \<Rightarrow> Inl e
               | Inr st \<Rightarrow> outer maxTarget sizes (i + 1) st))
      else Inr (dp, parent))"
  by pat_completeness auto
termination
  by (relation "measure (\<lambda>(maxTarget, sizes, i, st). nat (maxTarget + 1 - i))") auto

declare outer.simps [simp del]

text \<open>
  The search for the smallest total: the first \<open>i\<close> from \<open>amount\<close> up to \<open>maxTarget\<close>
  whose \<open>dp\<close> entry is not the sentinel, and \<open>-1\<close> when there is none.
\<close>

function find_best :: "int list \<Rightarrow> int \<Rightarrow> int \<Rightarrow> calc_error + int" where
  "find_best dp maxTarget i =
     (if i \<le> maxTarget then
        (if \<not> in_range dp i then Inl RuntimePanic
         else if dp ! nat i \<noteq> MaxInt32 then Inr i
         else find_best dp maxTarget (i + 1))
      else Inr (- 1))"
  by pat_completeness auto
termination
  by (relation "measure (\<lambda>(dp, maxTarget, i). nat (maxTarget + 1 - i))") auto

declare find_best.simps [simp del]

text \<open>
  The backtracking loop \<open>for current > 0\<close>. Nothing in the loop itself makes
  \<open>current\<close> decrease, so it is a partial function: \<open>None\<close> is a run that never ends.
\<close>

partial_function (option) backtrack :: "int list \<Rightarrow> int \<Rightarrow> packs \<Rightarrow> (calc_error + packs) option" where
  "backtrack parent current ps =
     (if current > 0 then
        (if \<not> in_range parent current then Some (Inl RuntimePanic)
         else backtrack parent (sub64 current (parent ! nat current))
                (incr ps (parent ! nat current)))
      else Some (Inr ps))"

declare backtrack.simps [code]

definition Calculate :: "Calculator \<Rightarrow> int \<Rightarrow> (calc_error + packs \<times> int) option" where
  "Calculate c amount =
     (if amount \<le> 0 then Some (Inl InvalidAmount)
      else if length (packSizes c) = 0 then Some (Inl NoConfig)
      else
        (let maxTarget = add64 amount (packSizes c ! (length (packSizes c) - 1)) in
         case make_ints (add64 maxTarget 1) of
           Inl e \<Rightarrow> Some (Inl e)
         | Inr dp0 \<Rightarrow>
             (let dp1 = map (\<lambda>_. MaxInt32) dp0 in
              if \<not> in_range dp1 0 then Some (Inl RuntimePanic)
              else
                (case make_ints (add64 maxTarget 1) of
                   Inl e \<Rightarrow> Some (Inl e)
                 | Inr parent0 \<Rightarrow>
                     (case outer maxTarget (packSizes c) 0 (dp1[0 := 0], parent0) of
                        Inl e \<Rightarrow> Some (Inl e)
                      | Inr (dp, parent) \<Rightarrow>
                          (case find_best dp maxTarget amount of
                             Inl e \<Rightarrow> Some (Inl e)
                           | Inr bestTotal \<Rightarrow>
                               if bestTotal = - 1 then Some (Inl NoSolution)
                               else (case backtrack parent bestTotal [] of
                                       None \<Rightarrow> None
                                     | Some (Inl e) \<Rightarrow> Some (Inl e)
                                     | Some (Inr ps) \<Rightarrow> Some (Inr (ps, bestTotal)))))))))"

text \<open>\<open>CalculateWithDetails\<close> adds the number of packs: the sum of the counts.\<close>

definition count_packs :: "packs \<Rightarrow> int" where
  "count_packs ps = fold (\<lambda>(size, count) totalPacks. add64 totalPacks count) ps 0"

definition CalculateWithDetails :: "Calculator \<Rightarrow> int \<Rightarrow> (calc_error + packs \<times> int \<times> int) option" where
  "CalculateWithDetails c amount =
     (case Calculate c amount of
        None \<Rightarrow> None
      | Some (Inl e) \<Rightarrow> Some (Inl e)
      | Some (Inr (ps, totalItems)) \<Rightarrow> Some (Inr (ps, totalItems, count_packs ps)))"


subsection \<open>The constructor on a heap of arrays\<close>

text \<open>
  \<open>NewCalculator\<close> receives a slice, which refers to an array the caller still holds. To
  state what the constructor and the solver write, the arrays live in a heap (a list
  indexed by address) and a slice is the address of its array. \<open>make\<close> allocates the
  next address (the constructor asks for the length of a slice that exists, which
  \<open>makeslice\<close> accepts), \<open>copy(dst, src)\<close> overwrites the first \<open>min(len(dst), len(src))\<close>
  elements of \<open>dst\<close>, and \<open>sort.Ints\<close> sorts the array in place.
\<close>

type_synonym heap = "int list list"

definition make_slice :: "heap \<Rightarrow> nat \<Rightarrow> heap \<times> nat" where
  "make_slice h n = (h @ [replicate n 0], length h)"

definition copy_slice :: "heap \<Rightarrow> nat \<Rightarrow> nat \<Rightarrow> heap" where
  "copy_slice h dst src =
     (let n = min (length (h ! dst)) (length (h ! src))
      in h[dst := take n (h ! src) @ drop n (h ! dst)])"

definition sort_Ints :: "heap \<Rightarrow> nat \<Rightarrow> heap" where
  "sort_Ints h a = h[a := sort (h ! a)]"

text \<open>
  The constructor on the heap: the result is the new heap and the address held in the
  field \<open>packSizes\<close> of the new calculator.
\<close>

definition NewCalculator_heap :: "heap \<Rightarrow> nat \<Rightarrow> heap \<times> nat" where
  "NewCalculator_heap h packSizes' =
     (let (h1, sorted) = make_slice h (length (h ! packSizes'));
          h2 = copy_slice h1 sorted packSizes';
          h3 = sort_Ints h2 sorted
      in (h3, sorted))"

text \<open>
  \<open>Calculate\<close> on the heap reads the array of the calculator; \<open>dp\<close>, \<open>parent\<close> and
  \<open>packs\<close> are created inside the call and no slice element of the calculator is
  assigned, so the heap it returns is the heap it was given.
\<close>

definition Calculate_heap :: "heap \<Rightarrow> nat \<Rightarrow> int \<Rightarrow> heap \<times> (calc_error + packs \<times> int) option" where
  "Calculate_heap h c amount = (h, Calculate \<lparr> packSizes = h ! c \<rparr> amount)"

text \<open>One calculation after the other on the same calculator; the results, in order.\<close>

fun Calculate_all :: "heap \<Rightarrow> nat \<Rightarrow> int list \<Rightarrow> heap \<times> (calc_error + packs \<times> int) option list" where
  "Calculate_all h c [] = (h, [])"
| "Calculate_all h c (amount # amounts) =
     (let (h1, r) = Calculate_heap h c amount;
          (h2, rs) = Calculate_all h1 c amounts
      in (h2, r # rs))"

section \<open>The Go library functions the service calls\<close>

text \<open>
  \<open>strconv.Itoa\<close> of the Go library: the decimal digits of the absolute value, most
  significant first, after a minus sign for a negative number.
\<close>

definition digit_char :: "nat \<Rightarrow> char" where
  "digit_char d = char_of (48 + d)"

function decimal :: "nat \<Rightarrow> string" where
  "decimal n = (if n < 10 then [digit_char n] else decimal (n div 10) @ [digit_char (n mod 10)])"
  by pat_completeness auto
termination
  by (relation "measure id") auto

declare decimal.simps [simp del]

definition Itoa :: "int \<Rightarrow> string" where
  "Itoa i = (if i < 0 then CHR ''-'' # decimal (nat (- i)) else decimal (nat i))"

text \<open>
  \<open>strconv.Atoi\<close> of the Go library: an optional sign, then one or more decimal digits;
  an error (\<open>None\<close>) for anything else and for a value outside the range of \<open>int\<close>.
\<close>

definition is_digit :: "char \<Rightarrow> bool" where
  "is_digit c = (48 \<le> (of_char c :: nat) \<and> (of_char c :: nat) \<le> 57)"

definition digit_val :: "char \<Rightarrow> nat" where
  "digit_val c = of_char c - 48"

definition undecimal :: "string \<Rightarrow> nat" where
  "undecimal s = foldl (\<lambda>acc c. 10 * acc + digit_val c) 0 s"

definition Atoi :: "string \<Rightarrow> int option" where
  "Atoi s =
     (let digits = (if s \<noteq> [] \<and> (hd s = CHR ''+'' \<or> hd s = CHR ''-'') then tl s else s) in
      if digits = [] \<or> \<not> list_all is_digit digits then None
      else
        (let n = int (undecimal digits);
             v = (if hd s = CHR ''-'' then - n else n) in
         if v < - 9223372036854775808 \<or> 9223372036854775807 < v then None else Some v))"

text \<open>\<open>strings.Split(s, "/")\<close>: the pieces of \<open>s\<close> between the slashes, at least one.\<close>

fun split_slash :: "string \<Rightarrow> string list" where
  "split_slash [] = [[]]"
| "split_slash (c # cs) =
     (if c = CHR ''/'' then [] # split_slash cs
      else (case split_slash cs of piece # rest \<Rightarrow> (c # piece) # rest | [] \<Rightarrow> [[c]]))"

section \<open>The result cache (package cache)\<close>

subsection \<open>Cache keys\<close>

text \<open>
  The loop of \<open>GenerateCacheKey\<close> over \<open>packSizes\<close>, from index \<open>i\<close> on, appending to the
  builder \<open>b\<close>: a comma before every size but the first, then the size in decimal.
\<close>

fun write_sizes :: "string \<Rightarrow> nat \<Rightarrow> int list \<Rightarrow> string" where
  "write_sizes b i [] = b"
| "write_sizes b i (size' # rest) =
     write_sizes ((if i > 0 then b @ '','' else b) @ Itoa size') (Suc i) rest"

definition GenerateCacheKey :: "int \<Rightarrow> int list \<Rightarrow> string" where
  "GenerateCacheKey amount packSizes' = write_sizes (''calc:'' @ Itoa amount @ '':'') 0 packSizes'"

subsection \<open>The in-memory LRU cache\<close>

text \<open>
  The recency chain is a doubly linked list of \<open>lruNode\<close> objects. The nodes live in a
  heap (\<open>nodes\<close>, indexed by address); a pointer is an address or \<open>None\<close> for \<open>nil\<close>. A
  new node gets the next free address, and an evicted node stays in the heap unreferenced.
  Instants and durations are integers.
\<close>

type_synonym addr = nat

record lruNode =
  key :: string
  prev :: "addr option"
  "next" :: "addr option"

record cacheItem =
  packs :: packs
  total' :: int
  expiration :: int
  node :: addr

record MemoryCache =
  items :: "(string \<times> cacheItem) list"
  nodes :: "lruNode list"
  head :: "addr option"
  tail :: "addr option"
  maxSize :: int
  hits :: int
  misses :: int

definition NewMemoryCache :: "int \<Rightarrow> MemoryCache" where
  "NewMemoryCache maxSize' =
     \<lparr> items = [], nodes = [], head = None, tail = None, maxSize = maxSize', hits = 0, misses = 0 \<rparr>"

text \<open>Assignments to the fields of the node at an address.\<close>

definition set_prev :: "addr \<Rightarrow> addr option \<Rightarrow> MemoryCache \<Rightarrow> MemoryCache" where
  "set_prev a p c = c\<lparr> nodes := (nodes c)[a := (nodes c ! a)\<lparr> prev := p \<rparr>] \<rparr>"

definition set_next :: "addr \<Rightarrow> addr option \<Rightarrow> MemoryCache \<Rightarrow> MemoryCache" where
  "set_next a p c = c\<lparr> nodes := (nodes c)[a := (nodes c ! a)\<lparr> next := p \<rparr>] \<rparr>"

text \<open>
  \<open>addToFront\<close>: \<open>node.next = c.head; node.prev = nil\<close>, then the old head's \<open>prev\<close>, the
  head and, when the list was empty, the tail.
\<close>

definition addToFront :: "MemoryCache \<Rightarrow> addr \<Rightarrow> MemoryCache" where
  "addToFront c a =
     (let c1 = set_next a (head c) c;
          c2 = set_prev a None c1;
          c3 = (case head c2 of Some h \<Rightarrow> set_prev h (Some a) c2 | None \<Rightarrow> c2);
          c4 = c3\<lparr> head := Some a \<rparr>
      in if tail c4 = None then c4\<lparr> tail := Some a \<rparr> else c4)"

text \<open>\<open>removeNode\<close> unlinks a node from its two neighbours, or from the head and the tail.\<close>

definition removeNode :: "MemoryCache \<Rightarrow> addr \<Rightarrow> MemoryCache" where
  "removeNode c a =
     (let c1 = (case prev (nodes c ! a) of
                  Some p \<Rightarrow> set_next p (next (nodes c ! a)) c
                | None \<Rightarrow> c\<lparr> head := next (nodes c ! a) \<rparr>)
      in case next (nodes c1 ! a) of
           Some q \<Rightarrow> set_prev q (prev (nodes c1 ! a)) c1
         | None \<Rightarrow> c1\<lparr> tail := prev (nodes c1 ! a) \<rparr>)"

definition moveToFront :: "MemoryCache \<Rightarrow> addr \<Rightarrow> MemoryCache" where
  "moveToFront c a = (if Some a = head c then c else addToFront (removeNode c a) a)"

definition evictLRU :: "MemoryCache \<Rightarrow> MemoryCache" where
  "evictLRU c =
     (case tail c of
        None \<Rightarrow> c
      | Some t \<Rightarrow>
          (let k = key (nodes c ! t);
               c1 = removeNode c t
           in c1\<lparr> items := AList.delete k (items c1) \<rparr>))"

text \<open>
  \<open>Get\<close> at the instant \<open>now\<close>: a miss when the key is absent or the entry has expired,
  otherwise a hit that moves the entry's node to the front. The counters are 64-bit and
  \<open>atomic.AddInt64\<close> wraps.
\<close>

definition Get :: "MemoryCache \<Rightarrow> string \<Rightarrow> int \<Rightarrow> MemoryCache \<times> (packs \<times> int) option" where
  "Get c k now =
     (case map_of (items c) k of
        None \<Rightarrow> (c\<lparr> misses := add64 (misses c) 1 \<rparr>, None)
      | Some item \<Rightarrow>
          if now > expiration item then (c\<lparr> misses := add64 (misses c) 1 \<rparr>, None)
          else (moveToFront (c\<lparr> hits := add64 (hits c) 1 \<rparr>) (node item),
                Some (packs item, total' item)))"

text \<open>
  \<open>Set\<close> at the instant \<open>now\<close>: an existing entry is overwritten and moved to the front;
  otherwise the least recently used entry is evicted when \<open>len(c.items) >= c.maxSize\<close>,
  and a new node is allocated and added at the front.
\<close>

definition Set :: "MemoryCache \<Rightarrow> string \<Rightarrow> packs \<Rightarrow> int \<Rightarrow> int \<Rightarrow> int \<Rightarrow> MemoryCache" where
  "Set c k packs' totalItems ttl now =
     (case map_of (items c) k of
        Some item \<Rightarrow>
          moveToFront
            (c\<lparr> items := AList.update k
                   (item\<lparr> packs := packs', total' := totalItems, expiration := now + ttl \<rparr>) (items c) \<rparr>)
            (node item)
      | None \<Rightarrow>
          (let c1 = (if int (length (items c)) \<ge> maxSize c then evictLRU c else c);
               a = length (nodes c1);
               c2 = c1\<lparr> nodes := nodes c1 @ [\<lparr> key = k, prev = None, next = None \<rparr>],
                        items := AList.update k
                          \<lparr> packs = packs', total' = totalItems, expiration = now + ttl, node = a \<rparr>
                          (items c1) \<rparr>
           in addToFront c2 a))"

text \<open>\<open>Clear\<close> drops the map and the chain and stores zero in both counters.\<close>

definition Clear :: "MemoryCache \<Rightarrow> MemoryCache" where
  "Clear c = c\<lparr> items := [], head := None, tail := None, hits := 0, misses := 0 \<rparr>"

text \<open>\<open>Stats\<close> without the hit ratio, which is a floating-point number: hits, misses, size.\<close>

definition Stats :: "MemoryCache \<Rightarrow> int \<times> int \<times> int" where
  "Stats c = (hits c, misses c, int (length (items c)))"



text \<open>Sequences of cache operations, each with the instant at which it runs.\<close>

datatype cache_op =
    OpGet string int
  | OpSet string packs int int int
  | OpClear

fun step :: "MemoryCache \<Rightarrow> cache_op \<Rightarrow> MemoryCache" where
  "step c (OpGet k now) = fst (Get c k now)"
| "step c (OpSet k packs' totalItems ttl now) = Set c k packs' totalItems ttl now"
| "step c OpClear = Clear c"

definition run :: "MemoryCache \<Rightarrow> cache_op list \<Rightarrow> MemoryCache" where
  "run c ops = foldl step c ops"


section \<open>The store and the request handlers\<close>

subsection \<open>The repository\<close>

text \<open>
  The repository is a thin layer over two tables of a relational store. The model keeps
  the \<open>size\<close> column of \<open>pack_sizes\<close> (declared \<open>INTEGER NOT NULL UNIQUE\<close>), the rows of
  \<open>orders\<close> with the most recent first, and whether the store answers at all.
\<close>

record Order =
  Amount :: int
  TotalItems :: int
  TotalPacks :: int
  Packs :: packs

record Repository =
  pack_sizes :: "int list"
  orders :: "Order list"
  db_ok :: bool

datatype repo_error = StoreError | NotFound

definition GetPackSizesAsSlice :: "Repository \<Rightarrow> repo_error + int list" where
  "GetPackSizesAsSlice r = (if db_ok r then Inr (sort (pack_sizes r)) else Inl StoreError)"

definition PackSizeExists :: "Repository \<Rightarrow> int \<Rightarrow> repo_error + bool" where
  "PackSizeExists r size' = (if db_ok r then Inr (size' \<in> set (pack_sizes r)) else Inl StoreError)"

text \<open>The \<open>INSERT\<close> fails on a duplicate and on a value outside the 32-bit column.\<close>

definition Repository_AddPackSize :: "Repository \<Rightarrow> int \<Rightarrow> repo_error + Repository" where
  "Repository_AddPackSize r size' =
     (if db_ok r \<and> size' \<notin> set (pack_sizes r) \<and> - 2147483648 \<le> size' \<and> size' \<le> 2147483647
      then Inr (r\<lparr> pack_sizes := pack_sizes r @ [size'] \<rparr>)
      else Inl StoreError)"

text \<open>\<open>DeletePackSize\<close> reports "not found" when the \<open>DELETE\<close> affected no row.\<close>

definition Repository_DeletePackSize :: "Repository \<Rightarrow> int \<Rightarrow> repo_error + Repository" where
  "Repository_DeletePackSize r size' =
     (if \<not> db_ok r then Inl StoreError
      else if size' \<notin> set (pack_sizes r) then Inl NotFound
      else Inr (r\<lparr> pack_sizes := removeAll size' (pack_sizes r) \<rparr>))"

text \<open>\<open>GetAllOrders(limit)\<close>: the query ends in \<open>LIMIT $1\<close>.\<close>

definition GetAllOrders :: "Repository \<Rightarrow> int \<Rightarrow> repo_error + Order list" where
  "GetAllOrders r limit =
     (if db_ok r \<and> 0 \<le> limit then Inr (take (nat limit) (orders r)) else Inl StoreError)"

subsection \<open>The cache behind its interface\<close>

datatype Cache = Memory MemoryCache | NoOp

fun Cache_Get :: "Cache \<Rightarrow> string \<Rightarrow> int \<Rightarrow> Cache \<times> (packs \<times> int) option" where
  "Cache_Get (Memory c) k now = (Memory (fst (Get c k now)), snd (Get c k now))"
| "Cache_Get NoOp k now = (NoOp, None)"

fun Cache_Clear :: "Cache \<Rightarrow> Cache" where
  "Cache_Clear (Memory c) = Memory (Clear c)"
| "Cache_Clear NoOp = NoOp"

subsection \<open>The handlers\<close>

text \<open>
  A handler runs on the handler's collaborators and leaves a trace: the calls it makes
  on the store and on the cache, and the status it writes, in the order of the source.
  The request is given by its method, and by its JSON body after decoding (\<open>None\<close> when
  decoding fails), its path or its \<open>limit\<close> query parameter (empty when absent).
\<close>

record Handler =
  repo :: Repository
  cache :: Cache

datatype event =
    EvPackSizeExists int
  | EvAddPackSize int
  | EvDeletePackSize int
  | EvGetAllOrders int
  | EvCacheClear
  | EvRespond nat

definition AddPackSize :: "Handler \<Rightarrow> string \<Rightarrow> int option \<Rightarrow> Handler \<times> event list" where
  "AddPackSize h method body =
     (if method \<noteq> ''POST'' then (h, [EvRespond 405])
      else case body of
        None \<Rightarrow> (h, [EvRespond 400])
      | Some size' \<Rightarrow>
          if size' < 1 then (h, [EvRespond 400])
          else case PackSizeExists (repo h) size' of
            Inl err \<Rightarrow> (h, [EvPackSizeExists size', EvRespond 500])
          | Inr exists \<Rightarrow>
              if exists then (h, [EvPackSizeExists size', EvRespond 409])
              else case Repository_AddPackSize (repo h) size' of
                Inl err \<Rightarrow> (h, [EvPackSizeExists size', EvAddPackSize size', EvRespond 500])
              | Inr r \<Rightarrow>
                  (h\<lparr> repo := r, cache := Cache_Clear (cache h) \<rparr>,
                   [EvPackSizeExists size', EvAddPackSize size', EvCacheClear, EvRespond 201]))"

definition DeletePackSize :: "Handler \<Rightarrow> string \<Rightarrow> string \<Rightarrow> Handler \<times> event list" where
  "DeletePackSize h method path =
     (if method \<noteq> ''DELETE'' then (h, [EvRespond 405])
      else
        (let parts = split_slash path in
         if length parts < 4 then (h, [EvRespond 400])
         else case Atoi (last parts) of
           None \<Rightarrow> (h, [EvRespond 400])
         | Some size' \<Rightarrow>
             (case Repository_DeletePackSize (repo h) size' of
                Inl err \<Rightarrow> (h, [EvDeletePackSize size', EvRespond 404])
              | Inr r \<Rightarrow>
                  (h\<lparr> repo := r, cache := Cache_Clear (cache h) \<rparr>,
                   [EvDeletePackSize size', EvCacheClear, EvRespond 200]))))"

definition GetOrders :: "Handler \<Rightarrow> string \<Rightarrow> string \<Rightarrow> Handler \<times> event list" where
  "GetOrders h method limitStr =
     (if method \<noteq> ''GET'' then (h, [EvRespond 405])
      else
        (let limit = (if limitStr \<noteq> ''''
                      then (case Atoi limitStr of
                              Some l \<Rightarrow> if l > 0 then l else 100
                            | None \<Rightarrow> 100)
                      else 100)
         in case GetAllOrders (repo h) limit of
              Inl err \<Rightarrow> (h, [EvGetAllOrders limit, EvRespond 500])
            | Inr found \<Rightarrow> (h, [EvGetAllOrders limit, EvRespond 200])))"

section \<open>Notions used to state the properties\<close>

subsection \<open>Pack combinations and the invariant of the dynamic program\<close>

text \<open>
  A combination over \<open>S\<close> is a list of packs, each of a size in \<open>S\<close>; \<open>reach S j p\<close> says
  that some combination of \<open>p\<close> packs has the total \<open>j\<close>. The invariant of the outer loop
  at state \<open>i\<close>, with the sizes in \<open>D\<close> already tried at \<open>i\<close>: both arrays have length \<open>n\<close>
  and \<open>dp\<close> holds counts between 0 and the sentinel; an entry below the sentinel is the
  length of a combination with that total; every edge out of a processed state has been
  relaxed; below \<open>i\<close> an entry is at most the length of any combination shorter than the
  sentinel; and \<open>parent\<close> at a reachable state names the last pack of a combination of
  \<open>dp\<close> packs.
\<close>

definition reach :: "int list \<Rightarrow> int \<Rightarrow> nat \<Rightarrow> bool" where
  "reach S j p = (\<exists>xs. set xs \<subseteq> set S \<and> sum_list xs = j \<and> length xs = p)"

definition sizes_ok :: "int list \<Rightarrow> nat \<Rightarrow> bool" where
  "sizes_ok S n = (\<forall>s\<in>set S. 1 \<le> s \<and> int n + s \<le> 9223372036854775808)"

definition inv_shape :: "nat \<Rightarrow> int list \<Rightarrow> int list \<Rightarrow> bool" where
  "inv_shape n dp parent =
     (length dp = n \<and> length parent = n \<and> 0 < n \<and> dp ! 0 = 0 \<and>
      (\<forall>j<n. 0 \<le> dp ! j \<and> dp ! j \<le> MaxInt32))"

definition inv_sound :: "int list \<Rightarrow> nat \<Rightarrow> int list \<Rightarrow> bool" where
  "inv_sound S n dp = (\<forall>j<n. dp ! j \<noteq> MaxInt32 \<longrightarrow> reach S (int j) (nat (dp ! j)))"

definition inv_edges :: "int list \<Rightarrow> nat \<Rightarrow> nat \<Rightarrow> int set \<Rightarrow> int list \<Rightarrow> bool" where
  "inv_edges S n i D dp =
     (\<forall>j<n. \<forall>s\<in>set S. dp ! j \<noteq> MaxInt32 \<and> (j < i \<or> (j = i \<and> s \<in> D)) \<and> j + nat s < n
        \<longrightarrow> dp ! (j + nat s) \<le> dp ! j + 1)"

definition inv_complete :: "int list \<Rightarrow> nat \<Rightarrow> nat \<Rightarrow> int list \<Rightarrow> bool" where
  "inv_complete S n i dp =
     (\<forall>j<n. j < i \<longrightarrow> (\<forall>p. reach S (int j) p \<and> int p < MaxInt32 \<longrightarrow> dp ! j \<le> int p))"

definition inv_parent :: "int list \<Rightarrow> nat \<Rightarrow> nat \<Rightarrow> int list \<Rightarrow> int list \<Rightarrow> bool" where
  "inv_parent S n i dp parent =
     (\<forall>j<n. 0 < j \<and> dp ! j \<noteq> MaxInt32 \<longrightarrow>
        parent ! j \<in> set S \<and> 1 \<le> parent ! j \<and> parent ! j \<le> int j \<and> j - nat (parent ! j) \<le> i \<and>
        dp ! (j - nat (parent ! j)) \<noteq> MaxInt32 \<and>
        dp ! (j - nat (parent ! j)) + 1 = dp ! j)"

definition dp_inv :: "int list \<Rightarrow> nat \<Rightarrow> nat \<Rightarrow> int set \<Rightarrow> int list \<Rightarrow> int list \<Rightarrow> bool" where
  "dp_inv S n i D dp parent =
     (inv_shape n dp parent \<and> inv_sound S n dp \<and> inv_edges S n i D dp \<and>
      inv_complete S n i dp \<and> inv_parent S n i dp parent)"

text \<open>The total and the number of packs of a result map, and the totals the solver can see.\<close>

definition weight :: "packs \<Rightarrow> int" where
  "weight ps = (\<Sum>(s, c)\<leftarrow>ps. s * c)"

definition cnt :: "packs \<Rightarrow> int" where
  "cnt ps = (\<Sum>(s, c)\<leftarrow>ps. c)"

definition feasible :: "int list \<Rightarrow> int \<Rightarrow> bool" where
  "feasible S j = (\<exists>p. reach S j p \<and> int p < MaxInt32)"

subsection \<open>The text of a list of sizes\<close>

text \<open>Every size in decimal after a comma: what the key holds after the first size.\<close>

definition comma_sizes :: "int list \<Rightarrow> string" where
  "comma_sizes xs = concat (map (\<lambda>x. CHR '','' # Itoa x) xs)"

subsection \<open>The recency chain and its invariant\<close>

text \<open>
  A segment of the recency chain: the nodes at the addresses \<open>bs\<close>, in order, are linked
  to each other in both directions; \<open>h\<close> is the pointer that leads into the segment, \<open>p\<close>
  the address before it, \<open>q\<close> the address of its last node (\<open>p\<close> when it is empty) and \<open>n\<close>
  the pointer that leaves it.
\<close>

fun seg :: "lruNode list \<Rightarrow> addr option \<Rightarrow> addr list \<Rightarrow> addr option \<Rightarrow> addr option \<Rightarrow> addr option \<Rightarrow> bool" where
  "seg ns p [] h q n = (h = n \<and> q = p)"
| "seg ns p (a # bs) h q n =
     (h = Some a \<and> a < length ns \<and> prev (ns ! a) = p \<and> seg ns (Some a) bs (next (ns ! a)) q n)"





text \<open>The number of \<open>Get\<close> operations after the last \<open>Clear\<close>, counted on from \<open>n\<close>.\<close>

fun gets_since_clear :: "nat \<Rightarrow> cache_op list \<Rightarrow> nat" where
  "gets_since_clear n [] = n"
| "gets_since_clear n (OpGet k now # ops) = gets_since_clear (Suc n) ops"
| "gets_since_clear n (OpSet k packs' totalItems ttl now # ops) = gets_since_clear n ops"
| "gets_since_clear n (OpClear # ops) = gets_since_clear 0 ops"

section \<open>Correctness of the solver\<close>

subsection \<open>Arithmetic without wrap-around, combinations\<close>

lemma wrap64_id: "- 9223372036854775808 \<le> x \<Longrightarrow> x < 9223372036854775808 \<Longrightarrow> wrap64 x = x"
  by (simp add: wrap64_def)

lemma reach_0: "reach S 0 0"
  unfolding reach_def by (rule exI[of _ "[]"]) simp

lemma reach_step: "reach S j p \<Longrightarrow> s \<in> set S \<Longrightarrow> reach S (j + s) (Suc p)"
  unfolding reach_def
proof -
  assume "\<exists>xs. set xs \<subseteq> set S \<and> sum_list xs = j \<and> length xs = p" and s: "s \<in> set S"
  then obtain xs where xs: "set xs \<subseteq> set S" "sum_list xs = j" "length xs = p" by blast
  show "\<exists>xs. set xs \<subseteq> set S \<and> sum_list xs = j + s \<and> length xs = Suc p"
    by (rule exI[of _ "s # xs"]) (use xs s in simp)
qed

lemma sum_list_pos_ge_length:
  "\<forall>x\<in>set xs. (1::int) \<le> x \<Longrightarrow> int (length xs) \<le> sum_list xs"
  by (induction xs) auto

lemma reach_unstep:
  assumes "reach S j p" and "0 < j" and pos: "\<forall>s\<in>set S. 1 \<le> s"
  shows "\<exists>s q. s \<in> set S \<and> p = Suc q \<and> reach S (j - s) q \<and> 0 \<le> j - s"
proof -
  from assms(1) obtain xs where xs: "set xs \<subseteq> set S" "sum_list xs = j" "length xs = p"
    unfolding reach_def by blast
  with \<open>0 < j\<close> obtain s ys where c: "xs = s # ys" by (cases xs) auto
  have "\<forall>x\<in>set ys. 1 \<le> x" using xs(1) pos c by auto
  then have "0 \<le> sum_list ys" using sum_list_pos_ge_length[of ys] by linarith
  moreover have "reach S (sum_list ys) (length ys)"
    unfolding reach_def using xs(1) c by auto
  ultimately show ?thesis using xs c by auto
qed

lemma reach_0_iff:
  assumes "reach S 0 p" and pos: "\<forall>s\<in>set S. 1 \<le> s"
  shows "p = 0"
proof -
  from assms(1) obtain xs where xs: "set xs \<subseteq> set S" "sum_list xs = 0" "length xs = p"
    unfolding reach_def by blast
  have "\<forall>x\<in>set xs. 1 \<le> x" using xs(1) pos by auto
  then have "int (length xs) \<le> sum_list xs" by (rule sum_list_pos_ge_length)
  then show ?thesis using xs by simp
qed

lemma reach_packs_le:
  assumes "reach S j p" and pos: "\<forall>s\<in>set S. 1 \<le> s"
  shows "int p \<le> j"
proof -
  from assms(1) obtain xs where xs: "set xs \<subseteq> set S" "sum_list xs = j" "length xs = p"
    unfolding reach_def by blast
  have "\<forall>x\<in>set xs. 1 \<le> x" using xs(1) pos by auto
  then have "int (length xs) \<le> sum_list xs" by (rule sum_list_pos_ge_length)
  then show ?thesis using xs by simp
qed

text \<open>Completeness at the next index follows from the relaxed edges.\<close>

lemma complete_next:
  assumes sh: "inv_shape n dp parent" and ed: "inv_edges S n i D dp"
    and co: "inv_complete S n i dp" and pos: "\<forall>s\<in>set S. 1 \<le> s" and "i < n"
  shows "inv_complete S n (Suc i) dp"
  unfolding inv_complete_def
proof (intro allI impI)
  fix j p assume j: "j < n" "j < Suc i" and rp: "reach S (int j) p \<and> int p < MaxInt32"
  show "dp ! j \<le> int p"
  proof (cases "j < i")
    case True
    then show ?thesis using co j rp unfolding inv_complete_def by blast
  next
    case False
    then have ji: "j = i" using j by simp
    show ?thesis
    proof (cases "j = 0")
      case True
      then show ?thesis using sh unfolding inv_shape_def by simp
    next
      case False
      then have "0 < int j" by simp
      from reach_unstep[OF conjunct1[OF rp] this pos]
      obtain s q where sq: "s \<in> set S" "p = Suc q" "reach S (int j - s) q" "0 \<le> int j - s"
        by blast
      have s1: "1 \<le> s" using pos sq(1) by blast
      define k where "k = j - nat s"
      have k: "int k = int j - s" "k < i" "k < n" "k + nat s = j"
        using sq(4) s1 ji \<open>i < n\<close> unfolding k_def by auto
      have "dp ! k \<le> int q"
        using co k sq(3) rp sq(2) unfolding inv_complete_def by auto
      moreover have "int q < MaxInt32" using rp sq(2) by simp
      ultimately have ne: "dp ! k \<noteq> MaxInt32" by simp
      have "dp ! (k + nat s) \<le> dp ! k + 1"
        using ed k ne sq(1) j(1) unfolding inv_edges_def by blast
      then show ?thesis using \<open>dp ! k \<le> int q\<close> sq(2) k(4) by simp
    qed
  qed
qed

lemma add64_plain:
  "- 9223372036854775808 \<le> a + b \<Longrightarrow> a + b < 9223372036854775808 \<Longrightarrow> add64 a b = a + b"
  by (simp add: add64_def wrap64_id)

lemma sub64_plain:
  "- 9223372036854775808 \<le> a - b \<Longrightarrow> a - b < 9223372036854775808 \<Longrightarrow> sub64 a b = a - b"
  by (simp add: sub64_def wrap64_id)

lemma MaxInt32_bound: "MaxInt32 + 1 < 9223372036854775808" "0 < MaxInt32"
  by (simp_all add: MaxInt32_def)

subsection \<open>The relaxation loops keep the invariant\<close>

text \<open>One relaxation that writes.\<close>

lemma relax_write:
  assumes sh: "inv_shape n dp parent" and so: "inv_sound S n dp"
    and ed: "inv_edges S n i D dp" and co: "inv_complete S n i dp"
    and pa: "inv_parent S n i dp parent"
    and i: "i < n" "dp ! i \<noteq> MaxInt32" and s: "s \<in> set S" "1 \<le> s"
    and nx: "i + nat s < n" "dp ! (i + nat s) > dp ! i + 1"
  defines "dp' \<equiv> dp[i + nat s := dp ! i + 1]"
    and "parent' \<equiv> parent[i + nat s := s]"
  shows "inv_shape n dp' parent'" "inv_sound S n dp'" "inv_edges S n i (insert s D) dp'"
    "inv_complete S n i dp'" "inv_parent S n i dp' parent'" "\<forall>j\<le>i. dp' ! j = dp ! j"
proof -
  have len: "length dp = n" "length parent = n" and z: "dp ! 0 = 0"
    and rng: "\<And>j. j < n \<Longrightarrow> 0 \<le> dp ! j \<and> dp ! j \<le> MaxInt32"
    using sh unfolding inv_shape_def by auto
  have pos: "0 < nat s" using s by simp
  have low: "\<And>j. j \<le> i \<Longrightarrow> dp' ! j = dp ! j"
    unfolding dp'_def using pos by simp
  have down: "\<And>j. j < n \<Longrightarrow> dp' ! j \<le> dp ! j"
    unfolding dp'_def using nx len by (auto simp: nth_list_update)
  show "\<forall>j\<le>i. dp' ! j = dp ! j" using low by blast
  have new: "0 \<le> dp ! i + 1" "dp ! i + 1 \<le> MaxInt32"
    using rng[OF i(1)] rng[OF nx(1)] nx(2) by auto
  have "0 \<le> dp' ! j \<and> dp' ! j \<le> MaxInt32" if "j < n" for j
  proof (cases "j = i + nat s")
    case True
    then show ?thesis unfolding dp'_def using new len that by simp
  next
    case False
    then show ?thesis unfolding dp'_def using rng[OF that] by simp
  qed
  moreover have "dp' ! 0 = 0" using low[of 0] z by simp
  ultimately show "inv_shape n dp' parent'"
    unfolding inv_shape_def using len i(1) by (simp add: dp'_def parent'_def)
  show "inv_sound S n dp'"
    unfolding inv_sound_def
  proof (intro allI impI)
    fix j assume j: "j < n" "dp' ! j \<noteq> MaxInt32"
    show "reach S (int j) (nat (dp' ! j))"
    proof (cases "j = i + nat s")
      case True
      have "reach S (int i) (nat (dp ! i))" using so i unfolding inv_sound_def by blast
      from reach_step[OF this s(1)] have "reach S (int i + s) (Suc (nat (dp ! i)))" .
      moreover have "dp' ! j = dp ! i + 1" unfolding dp'_def using True nx len by simp
      moreover have "0 \<le> dp ! i" using rng[OF i(1)] by simp
      ultimately show ?thesis using True s(2) by (simp add: Suc_nat_eq_nat_zadd1 add.commute)
    next
      case False
      then have "dp' ! j = dp ! j" unfolding dp'_def by simp
      then show ?thesis using so j unfolding inv_sound_def by simp
    qed
  qed
  show "inv_edges S n i (insert s D) dp'"
    unfolding inv_edges_def
  proof (intro allI impI ballI)
    fix j t assume j: "j < n" and t: "t \<in> set S"
      and h: "dp' ! j \<noteq> MaxInt32 \<and> (j < i \<or> j = i \<and> t \<in> insert s D) \<and> j + nat t < n"
    have ji: "j \<le> i" using h by auto
    have eq: "dp' ! j = dp ! j" using low[OF ji] .
    show "dp' ! (j + nat t) \<le> dp' ! j + 1"
    proof (cases "j = i \<and> t = s")
      case True
      have "dp' ! (i + nat s) = dp ! i + 1" unfolding dp'_def using nx len by simp
      then show ?thesis using True eq by simp
    next
      case False
      then have "j < i \<or> (j = i \<and> t \<in> D)" using h by auto
      then have "dp ! (j + nat t) \<le> dp ! j + 1"
        using ed j t h eq unfolding inv_edges_def by auto
      moreover have "dp' ! (j + nat t) \<le> dp ! (j + nat t)" using down h by blast
      ultimately show ?thesis using eq by simp
    qed
  qed
  show "inv_complete S n i dp'"
    unfolding inv_complete_def using co low unfolding inv_complete_def by auto
  show "inv_parent S n i dp' parent'"
    unfolding inv_parent_def
  proof (intro allI impI)
    fix j assume j: "j < n" and h: "0 < j \<and> dp' ! j \<noteq> MaxInt32"
    show "parent' ! j \<in> set S \<and> 1 \<le> parent' ! j \<and> parent' ! j \<le> int j \<and> j - nat (parent' ! j) \<le> i \<and>
        dp' ! (j - nat (parent' ! j)) \<noteq> MaxInt32 \<and>
        dp' ! (j - nat (parent' ! j)) + 1 = dp' ! j"
    proof (cases "j = i + nat s")
      case True
      have p: "parent' ! j = s" unfolding parent'_def using True nx len by simp
      have d: "dp' ! j = dp ! i + 1" unfolding dp'_def using True nx len by simp
      have src: "j - nat s = i" using True by simp
      show ?thesis unfolding p src low[OF order_refl] d
        using s i True by auto
    next
      case False
      then have e: "dp' ! j = dp ! j" "parent' ! j = parent ! j"
        unfolding dp'_def parent'_def by simp_all
      with h j pa have old: "parent ! j \<in> set S" "1 \<le> parent ! j" "parent ! j \<le> int j"
        "j - nat (parent ! j) \<le> i"
        "dp ! (j - nat (parent ! j)) \<noteq> MaxInt32" "dp ! (j - nat (parent ! j)) + 1 = dp ! j"
        unfolding inv_parent_def by auto
      show ?thesis unfolding e low[OF old(4)] using old by simp
    qed
  qed
qed

text \<open>A relaxation that does not write.\<close>

lemma relax_keep:
  assumes ed: "inv_edges S n i D dp"
    and nx: "i + nat s < n \<longrightarrow> dp ! (i + nat s) \<le> dp ! i + 1"
  shows "inv_edges S n i (insert s D) dp"
  unfolding inv_edges_def
proof (intro allI impI ballI)
  fix j t assume j: "j < n" and t: "t \<in> set S"
    and h: "dp ! j \<noteq> MaxInt32 \<and> (j < i \<or> j = i \<and> t \<in> insert s D) \<and> j + nat t < n"
  show "dp ! (j + nat t) \<le> dp ! j + 1"
  proof (cases "j = i \<and> t = s")
    case True
    then show ?thesis using nx h by simp
  next
    case False
    then have "j < i \<or> (j = i \<and> t \<in> D)" using h by auto
    then show ?thesis using ed j t h unfolding inv_edges_def by auto
  qed
qed

lemma inner_inv:
  assumes ok: "sizes_ok S n"
    and sub: "set rest \<subseteq> set S"
    and inv: "dp_inv S n i D dp parent"
    and i: "i < n" "dp ! i \<noteq> MaxInt32"
  shows "\<exists>dp' parent'. inner (int n - 1) (int i) rest (dp, parent) = Inr (dp', parent') \<and>
           dp_inv S n i (D \<union> set rest) dp' parent' \<and> (\<forall>j\<le>i. dp' ! j = dp ! j)"
  using sub inv i
proof (induction rest arbitrary: dp parent D)
  case Nil
  then show ?case by simp
next
  case (Cons s rest)
  have s: "s \<in> set S" "1 \<le> s" "int n + s \<le> 9223372036854775808"
    using Cons.prems(1) ok unfolding sizes_ok_def by auto
  have sub': "set rest \<subseteq> set S" using Cons.prems(1) by simp
  have sh: "inv_shape n dp parent" and so: "inv_sound S n dp" and ed: "inv_edges S n i D dp"
    and co: "inv_complete S n i dp" and pa: "inv_parent S n i dp parent"
    using Cons.prems(2) unfolding dp_inv_def by auto
  have len: "length dp = n" "length parent = n"
    and rng: "0 \<le> dp ! i" "dp ! i \<le> MaxInt32"
    using sh Cons.prems(3) unfolding inv_shape_def by auto
  have nxt: "add64 (int i) s = int i + s"
    using s Cons.prems(3) by (intro add64_plain) auto
  have inc: "add64 (dp ! i) 1 = dp ! i + 1"
    using rng MaxInt32_bound by (intro add64_plain) auto
  have ni: "nat (int i + s) = i + nat s" using s(2) by (simp add: nat_add_distrib)
  have iri: "in_range dp (int i)" using len Cons.prems(3) by (simp add: in_range_def)
  show ?case
  proof (cases "int i + s \<le> int n - 1")
    case False
    then have "\<not> i + nat s < n" using s(2) by linarith
    then have ed': "inv_edges S n i (insert s D) dp" using relax_keep[OF ed] by blast
    have inv': "dp_inv S n i (insert s D) dp parent"
      unfolding dp_inv_def using sh so ed' co pa by simp
    from Cons.IH[OF sub' inv' Cons.prems(3,4)]
    obtain dp' parent' where r: "inner (int n - 1) (int i) rest (dp, parent) = Inr (dp', parent')"
      "dp_inv S n i (insert s D \<union> set rest) dp' parent'" "\<forall>j\<le>i. dp' ! j = dp ! j" by blast
    have "inner (int n - 1) (int i) (s # rest) (dp, parent) = Inr (dp', parent')"
      using False r(1) by (simp add: nxt)
    then show ?thesis using r(2,3) by simp
  next
    case True
    then have lt: "i + nat s < n" using s(2) by linarith
    have irn: "in_range dp (int i + s)" "in_range parent (int i + s)"
      using len True s(2) by (simp_all add: in_range_def)
    show ?thesis
    proof (cases "dp ! (i + nat s) > dp ! i + 1")
      case False
      then have ed': "inv_edges S n i (insert s D) dp" using relax_keep[OF ed] by simp
      have inv': "dp_inv S n i (insert s D) dp parent"
        unfolding dp_inv_def using sh so ed' co pa by simp
      from Cons.IH[OF sub' inv' Cons.prems(3,4)]
      obtain dp' parent' where r: "inner (int n - 1) (int i) rest (dp, parent) = Inr (dp', parent')"
        "dp_inv S n i (insert s D \<union> set rest) dp' parent'" "\<forall>j\<le>i. dp' ! j = dp ! j" by blast
      have "inner (int n - 1) (int i) (s # rest) (dp, parent) = Inr (dp', parent')"
        using False True r(1) irn iri by (simp add: nxt inc ni)
      then show ?thesis using r(2,3) by simp
    next
      case gt: True
      define dp1 where "dp1 = dp[i + nat s := dp ! i + 1]"
      define parent1 where "parent1 = parent[i + nat s := s]"
      note w = relax_write[OF sh so ed co pa Cons.prems(3,4) s(1,2) lt gt, folded dp1_def parent1_def]
      have inv': "dp_inv S n i (insert s D) dp1 parent1"
        unfolding dp_inv_def using w by simp
      have i1: "dp1 ! i \<noteq> MaxInt32" using w(6) Cons.prems(4) by simp
      from Cons.IH[OF sub' inv' Cons.prems(3) i1]
      obtain dp' parent' where r: "inner (int n - 1) (int i) rest (dp1, parent1) = Inr (dp', parent')"
        "dp_inv S n i (insert s D \<union> set rest) dp' parent'" "\<forall>j\<le>i. dp' ! j = dp1 ! j" by blast
      have "inner (int n - 1) (int i) (s # rest) (dp, parent) = Inr (dp', parent')"
        using gt True r(1) irn iri by (simp add: nxt inc ni dp1_def parent1_def)
      then show ?thesis using r(2,3) w(6) by simp
    qed
  qed
qed

lemma dp_inv_advance:
  assumes inv: "dp_inv S n i D dp parent" and pos: "\<forall>s\<in>set S. 1 \<le> s" and i: "i < n"
    and full: "dp ! i \<noteq> MaxInt32 \<longrightarrow> set S \<subseteq> D"
  shows "dp_inv S n (Suc i) {} dp parent"
proof -
  have sh: "inv_shape n dp parent" and so: "inv_sound S n dp" and ed: "inv_edges S n i D dp"
    and co: "inv_complete S n i dp" and pa: "inv_parent S n i dp parent"
    using inv unfolding dp_inv_def by auto
  have "inv_complete S n (Suc i) dp" by (rule complete_next[OF sh ed co pos i])
  moreover have "inv_edges S n (Suc i) {} dp"
    unfolding inv_edges_def
  proof (intro allI impI ballI)
    fix j t assume j: "j < n" and t: "t \<in> set S"
      and h: "dp ! j \<noteq> MaxInt32 \<and> (j < Suc i \<or> j = Suc i \<and> t \<in> {}) \<and> j + nat t < n"
    have "j < i \<or> (j = i \<and> t \<in> D)"
    proof (cases "j < i")
      case False
      then have "j = i" using h by simp
      then show ?thesis using full t h by auto
    qed simp
    then show "dp ! (j + nat t) \<le> dp ! j + 1"
      using ed j t h unfolding inv_edges_def by auto
  qed
  moreover have "inv_parent S n (Suc i) dp parent"
    using pa unfolding inv_parent_def by (meson le_SucI)
  ultimately show ?thesis unfolding dp_inv_def using sh so by simp
qed

lemma outer_inv:
  assumes ok: "sizes_ok S n"
    and inv: "dp_inv S n i {} dp parent" and i: "i \<le> n"
  shows "\<exists>dp' parent'. outer (int n - 1) S (int i) (dp, parent) = Inr (dp', parent') \<and>
           dp_inv S n n {} dp' parent'"
  using inv i
proof (induction "n - i" arbitrary: i dp parent)
  case 0
  then have "i = n" by simp
  then show ?case using "0.prems"(1) by (subst outer.simps) simp
next
  case (Suc k)
  then have i: "i < n" by simp
  have pos: "\<forall>s\<in>set S. 1 \<le> s" using ok unfolding sizes_ok_def by blast
  have sh: "inv_shape n dp parent" using Suc.prems(1) unfolding dp_inv_def by simp
  then have len: "length dp = n" unfolding inv_shape_def by simp
  have iri: "in_range dp (int i)" using len i by (simp add: in_range_def)
  have k: "k = n - Suc i" using Suc.hyps(2) by simp
  have cond: "int i \<le> int n - 1" using i by simp
  have suc: "int i + 1 = int (Suc i)" by simp
  show ?case
  proof (cases "dp ! i = MaxInt32")
    case True
    have inv': "dp_inv S n (Suc i) {} dp parent"
      using dp_inv_advance[OF Suc.prems(1) pos i] True by simp
    from Suc.hyps(1)[OF k inv'] i
    obtain dp' parent' where r: "outer (int n - 1) S (int (Suc i)) (dp, parent) = Inr (dp', parent')"
      "dp_inv S n n {} dp' parent'" by auto
    have r': "outer (int n - 1) S (int i + 1) (dp, parent) = Inr (dp', parent')"
      using r(1) by (simp add: add.commute)
    have "outer (int n - 1) S (int i) (dp, parent) = Inr (dp', parent')"
      by (subst outer.simps) (simp add: i iri True r')
    then show ?thesis using r(2) by blast
  next
    case False
    from inner_inv[OF ok subset_refl Suc.prems(1) i False]
    obtain dp1 parent1 where
      r1: "inner (int n - 1) (int i) S (dp, parent) = Inr (dp1, parent1)"
        "dp_inv S n i ({} \<union> set S) dp1 parent1" "\<forall>j\<le>i. dp1 ! j = dp ! j" by blast
    have inv': "dp_inv S n (Suc i) {} dp1 parent1"
      using dp_inv_advance[OF r1(2) pos i] by simp
    from Suc.hyps(1)[OF k inv'] i
    obtain dp' parent' where r: "outer (int n - 1) S (int (Suc i)) (dp1, parent1) = Inr (dp', parent')"
      "dp_inv S n n {} dp' parent'" by auto
    have r': "outer (int n - 1) S (int i + 1) (dp1, parent1) = Inr (dp', parent')"
      using r(1) by (simp add: add.commute)
    have "outer (int n - 1) S (int i) (dp, parent) = Inr (dp', parent')"
      by (subst outer.simps) (simp add: i iri False r1(1) r')
    then show ?thesis using r(2) by blast
  qed
qed

subsection \<open>The search and the backtracking\<close>

lemma find_best_char:
  assumes len: "length dp = n" and i: "i \<le> n"
  shows "(\<exists>t. find_best dp (int n - 1) (int i) = Inr (int t) \<and> i \<le> t \<and> t < n \<and>
              dp ! t \<noteq> MaxInt32 \<and> (\<forall>j. i \<le> j \<and> j < t \<longrightarrow> dp ! j = MaxInt32))
       \<or> (find_best dp (int n - 1) (int i) = Inr (- 1) \<and>
              (\<forall>j. i \<le> j \<and> j < n \<longrightarrow> dp ! j = MaxInt32))"
  using i
proof (induction "n - i" arbitrary: i)
  case 0
  then have "i = n" by simp
  then show ?case by (subst (1 2) find_best.simps) simp
next
  case (Suc k)
  then have i: "i < n" by simp
  have iri: "in_range dp (int i)" using len i by (simp add: in_range_def)
  have k: "k = n - Suc i" using Suc.hyps(2) by simp
  show ?case
  proof (cases "dp ! i = MaxInt32")
    case False
    have "find_best dp (int n - 1) (int i) = Inr (int i)"
      by (subst find_best.simps) (simp add: i iri False)
    then show ?thesis using i False by auto
  next
    case True
    have step: "find_best dp (int n - 1) (int i) = find_best dp (int n - 1) (int (Suc i))"
      by (subst find_best.simps) (simp add: i iri True add.commute)
    have below: "\<And>j t. i \<le> j \<Longrightarrow> j < t \<Longrightarrow> \<forall>j. Suc i \<le> j \<and> j < t \<longrightarrow> dp ! j = MaxInt32
        \<Longrightarrow> dp ! j = MaxInt32"
      using True by (metis Suc_leI le_neq_implies_less)
    from Suc.hyps(1)[OF k] i
    consider t where "find_best dp (int n - 1) (int (Suc i)) = Inr (int t)" "Suc i \<le> t" "t < n"
        "dp ! t \<noteq> MaxInt32" "\<forall>j. Suc i \<le> j \<and> j < t \<longrightarrow> dp ! j = MaxInt32"
      | "find_best dp (int n - 1) (int (Suc i)) = Inr (- 1)"
        "\<forall>j. Suc i \<le> j \<and> j < n \<longrightarrow> dp ! j = MaxInt32"
      by (meson Suc_leI)
    then show ?thesis
    proof cases
      case 1
      then show ?thesis unfolding step using below by (intro disjI1 exI[of _ t]) auto
    next
      case 2
      then show ?thesis unfolding step using below by (intro disjI2) auto
    qed
  qed
qed

lemma weight_update: "weight (AList.update k v ps) = weight ps - k * lookup0 ps k + k * v"
  by (induction ps) (auto simp: weight_def lookup0_def)

lemma cnt_update: "cnt (AList.update k v ps) = cnt ps - lookup0 ps k + v"
  by (induction ps) (auto simp: cnt_def lookup0_def)

lemma lookup0_bounds:
  assumes "\<forall>(s, c)\<in>set ps. 1 \<le> c"
  shows "0 \<le> lookup0 ps k \<and> lookup0 ps k \<le> cnt ps"
  using assms
proof (induction ps)
  case Nil
  then show ?case by (simp add: lookup0_def cnt_def)
next
  case (Cons a ps)
  obtain s c where a: "a = (s, c)" by (cases a)
  have "0 \<le> lookup0 ps k \<and> lookup0 ps k \<le> cnt ps" using Cons by simp
  moreover have "1 \<le> c" using Cons.prems a by simp
  moreover have "0 \<le> cnt ps" using calculation by linarith
  ultimately show ?case unfolding a by (auto simp: lookup0_def cnt_def)
qed

lemma set_update_counts:
  assumes "\<forall>(s, c)\<in>set ps. 1 \<le> c" and "1 \<le> v"
  shows "\<forall>(s, c)\<in>set (AList.update k v ps). 1 \<le> c"
  using assms by (induction ps) auto

lemma keys_update: "fst ` set (AList.update k v ps) = insert k (fst ` set ps)"
  by (induction ps) auto

lemma incr_props:
  assumes c1: "\<forall>(s, c)\<in>set ps. 1 \<le> c" and b: "cnt ps < MaxInt32"
  shows "weight (incr ps k) = weight ps + k" "cnt (incr ps k) = cnt ps + 1"
    "\<forall>(s, c)\<in>set (incr ps k). 1 \<le> c" "fst ` set (incr ps k) = insert k (fst ` set ps)"
    "distinct (map fst ps) \<Longrightarrow> distinct (map fst (incr ps k))"
proof -
  have lb: "0 \<le> lookup0 ps k" "lookup0 ps k \<le> cnt ps" using lookup0_bounds[OF c1] by auto
  have e: "add64 (lookup0 ps k) 1 = lookup0 ps k + 1"
    using lb b by (intro add64_plain) (auto simp: MaxInt32_def)
  show "weight (incr ps k) = weight ps + k"
    unfolding incr_def e weight_update by (simp add: algebra_simps)
  show "cnt (incr ps k) = cnt ps + 1"
    unfolding incr_def e cnt_update by simp
  show "\<forall>(s, c)\<in>set (incr ps k). 1 \<le> c"
    unfolding incr_def e using lb by (intro set_update_counts[OF c1]) simp
  show "fst ` set (incr ps k) = insert k (fst ` set ps)"
    unfolding incr_def by (rule keys_update)
  show "distinct (map fst ps) \<Longrightarrow> distinct (map fst (incr ps k))"
    unfolding incr_def by (simp add: distinct_update)
qed

lemma backtrack_char:
  assumes sh: "inv_shape n dp parent" and pa: "inv_parent S n n dp parent"
    and j: "j < n" "dp ! j \<noteq> MaxInt32"
    and c1: "\<forall>(s, c)\<in>set ps. 1 \<le> c" and b: "cnt ps + dp ! j \<le> MaxInt32"
    and bn: "int n \<le> 9223372036854775808"
  shows "\<exists>ps'. backtrack parent (int j) ps = Some (Inr ps') \<and>
           weight ps' = weight ps + int j \<and> cnt ps' = cnt ps + dp ! j \<and>
           (\<forall>(s, c)\<in>set ps'. 1 \<le> c) \<and> fst ` set ps' \<subseteq> fst ` set ps \<union> set S \<and>
           (distinct (map fst ps) \<longrightarrow> distinct (map fst ps'))"
  using j c1 b
proof (induction j arbitrary: ps rule: less_induct)
  case (less j)
  have len: "length dp = n" "length parent = n" and z: "dp ! 0 = 0"
    and rng: "\<And>j. j < n \<Longrightarrow> 0 \<le> dp ! j \<and> dp ! j \<le> MaxInt32"
    using sh unfolding inv_shape_def by auto
  show ?case
  proof (cases "j = 0")
    case True
    have "backtrack parent (int j) ps = Some (Inr ps)"
      using True by (subst backtrack.simps) simp
    then show ?thesis using True z less.prems(3) by auto
  next
    case False
    then have j0: "0 < j" by simp
    define s where "s = parent ! j"
    define k where "k = j - nat s"
    have p: "s \<in> set S" "1 \<le> s" "s \<le> int j" "dp ! k \<noteq> MaxInt32" "dp ! k + 1 = dp ! j"
      using pa less.prems(1,2) j0 unfolding inv_parent_def s_def k_def by auto
    have k: "k < j" "int k = int j - s" "k < n" using p(2,3) less.prems(1) unfolding k_def by auto
    have irp: "in_range parent (int j)" using len less.prems(1) by (simp add: in_range_def)
    have sub: "sub64 (int j) s = int k"
      unfolding k(2) using p(2,3) less.prems(1) bn by (intro sub64_plain) auto
    have dk: "0 \<le> dp ! k" using rng[OF k(3)] by simp
    have cb: "cnt ps < MaxInt32" using less.prems(4) p(5) dk by linarith
    note ip = incr_props[OF less.prems(3) cb, of s]
    have b': "cnt (incr ps s) + dp ! k \<le> MaxInt32"
      using ip(2) p(5) less.prems(4) by linarith
    from less.IH[OF k(1) k(3) p(4) ip(3) b']
    obtain ps' where r: "backtrack parent (int k) (incr ps s) = Some (Inr ps')"
      "weight ps' = weight (incr ps s) + int k" "cnt ps' = cnt (incr ps s) + dp ! k"
      "\<forall>(s, c)\<in>set ps'. 1 \<le> c" "fst ` set ps' \<subseteq> fst ` set (incr ps s) \<union> set S"
      "distinct (map fst (incr ps s)) \<longrightarrow> distinct (map fst ps')" by blast
    have "backtrack parent (int j) ps = Some (Inr ps')"
      using j0 irp sub r(1) by (subst backtrack.simps) (simp add: s_def)
    moreover have "weight ps' = weight ps + int j" using r(2) ip(1) k(2) by simp
    moreover have "cnt ps' = cnt ps + dp ! j" using r(3) ip(2) p(5) by simp
    moreover have "fst ` set ps' \<subseteq> fst ` set ps \<union> set S" using r(5) ip(4) p(1) by auto
    moreover have "distinct (map fst ps) \<longrightarrow> distinct (map fst ps')" using r(6) ip(5) by blast
    ultimately show ?thesis using r(4) by blast
  qed
qed

lemma count_packs_cnt_aux:
  assumes "\<forall>(s, c)\<in>set ps. 0 \<le> c" and "0 \<le> acc" and "acc + cnt ps < 9223372036854775808"
  shows "fold (\<lambda>(size, count) totalPacks. add64 totalPacks count) ps acc = acc + cnt ps"
  using assms
proof (induction ps arbitrary: acc)
  case Nil
  then show ?case by (simp add: cnt_def)
next
  case (Cons a ps)
  obtain s c where a: "a = (s, c)" by (cases a)
  have c: "0 \<le> c" using Cons.prems(1) a by simp
  have r: "\<forall>(s, c)\<in>set ps. 0 \<le> c" using Cons.prems(1) by simp
  have cs: "cnt (a # ps) = c + cnt ps" unfolding a by (simp add: cnt_def)
  have nn: "0 \<le> cnt ps" using r by (induction ps) (auto simp: cnt_def)
  have e: "add64 acc c = acc + c"
    using Cons.prems(2,3) c cs nn by (intro add64_plain) auto
  have "fold (\<lambda>(size, count) totalPacks. add64 totalPacks count) ps (acc + c) = (acc + c) + cnt ps"
    using Cons.prems(2,3) c cs by (intro Cons.IH[OF r]) auto
  then show ?case unfolding a using e cs a by simp
qed

lemma count_packs_cnt:
  assumes "\<forall>(s, c)\<in>set ps. 1 \<le> c" and "cnt ps < 9223372036854775808"
  shows "count_packs ps = cnt ps"
proof -
  have "\<forall>(s, c)\<in>set ps. 0 \<le> c" using assms(1) by fastforce
  from count_packs_cnt_aux[OF this, of 0] assms(2) show ?thesis
    by (simp add: count_packs_def)
qed

subsection \<open>The solver as a whole\<close>

lemma sort_Nil_iff: "(sort xs = []) = (xs = [])"
  by (metis set_sort set_empty)

lemma sort_last_Max:
  assumes "xs \<noteq> []"
  shows "sort xs ! (length (sort xs) - 1) = Max (set xs)"
proof -
  define ys where "ys = sort xs"
  have ys: "ys \<noteq> []" "sorted ys" "set ys = set xs"
    using assms unfolding ys_def by (auto simp: sort_Nil_iff)
  have l: "ys ! (length ys - 1) = last ys" using ys(1) by (simp add: last_conv_nth)
  have "\<And>x. x \<in> set ys \<Longrightarrow> x \<le> last ys"
  proof -
    fix x assume "x \<in> set ys"
    then obtain k where k: "k < length ys" "ys ! k = x" by (auto simp: in_set_conv_nth)
    then have "ys ! k \<le> ys ! (length ys - 1)"
      using ys(2) by (intro sorted_nth_mono) auto
    then show "x \<le> last ys" using k l by simp
  qed
  moreover have "last ys \<in> set ys" using ys(1) by simp
  ultimately have "Max (set ys) = last ys" by (intro Max_eqI) auto
  then show ?thesis using l ys(3) unfolding ys_def by simp
qed

lemma reach_cong: "set S = set S' \<Longrightarrow> reach S j p = reach S' j p"
  unfolding reach_def by simp

lemma dp_inv_init:
  assumes "0 < n"
  shows "dp_inv S n 0 {} ((replicate n MaxInt32)[0 := 0]) (replicate n 0)"
proof -
  let ?dp = "(replicate n MaxInt32)[0 := 0]"
  have v: "\<And>j. j < n \<Longrightarrow> ?dp ! j = (if j = 0 then 0 else MaxInt32)"
    using assms by (simp add: nth_list_update)
  have "inv_shape n ?dp (replicate n 0)"
    unfolding inv_shape_def using assms v MaxInt32_bound(2) by auto
  moreover have "inv_sound S n ?dp"
    unfolding inv_sound_def using v reach_0 by (auto split: if_splits)
  moreover have "inv_edges S n 0 {} ?dp" unfolding inv_edges_def by simp
  moreover have "inv_complete S n 0 ?dp" unfolding inv_complete_def by simp
  moreover have "inv_parent S n 0 ?dp (replicate n 0)"
    unfolding inv_parent_def using v by auto
  ultimately show ?thesis unfolding dp_inv_def by simp
qed

lemma dp_final:
  assumes inv: "dp_inv S n n {} dp parent" and j: "j < n"
  shows "(dp ! j \<noteq> MaxInt32) = feasible S (int j)"
    and "dp ! j \<noteq> MaxInt32 \<Longrightarrow> reach S (int j) (nat (dp ! j))"
    and "reach S (int j) p \<Longrightarrow> dp ! j \<le> int p"
    and "0 \<le> dp ! j" "dp ! j \<le> MaxInt32"
proof -
  have sh: "inv_shape n dp parent" and so: "inv_sound S n dp"
    and co: "inv_complete S n n dp"
    using inv unfolding dp_inv_def by auto
  show rng: "0 \<le> dp ! j" "dp ! j \<le> MaxInt32" using sh j unfolding inv_shape_def by auto
  show s: "dp ! j \<noteq> MaxInt32 \<Longrightarrow> reach S (int j) (nat (dp ! j))"
    using so j unfolding inv_sound_def by blast
  have c: "dp ! j \<le> int q" if "reach S (int j) q" for q
  proof (cases "int q < MaxInt32")
    case True
    then show ?thesis using co j that unfolding inv_complete_def by blast
  next
    case False
    then show ?thesis using rng by linarith
  qed
  show "reach S (int j) p \<Longrightarrow> dp ! j \<le> int p" by (rule c)
  show "(dp ! j \<noteq> MaxInt32) = feasible S (int j)"
  proof
    assume ne: "dp ! j \<noteq> MaxInt32"
    have "int (nat (dp ! j)) < MaxInt32" using rng ne by simp
    then show "feasible S (int j)" unfolding feasible_def using s[OF ne] by blast
  next
    assume "feasible S (int j)"
    then obtain p where "reach S (int j) p" "int p < MaxInt32" unfolding feasible_def by blast
    then show "dp ! j \<noteq> MaxInt32" using c[of p] by simp
  qed
qed

lemma alloc_nowrap:
  assumes "1 \<le> A" and "S \<noteq> []" and "\<forall>s\<in>set S. 1 \<le> s"
    and "8 * (A + Max (set S) + 1) \<le> maxAlloc"
  shows "A + 2 * Max (set S) < 9223372036854775808"
proof -
  have "Max (set S) \<in> set S" using assms(2) by (intro Max_in) auto
  then have "1 \<le> Max (set S)" using assms(3) by blast
  then show ?thesis using assms(1,4) by (simp add: maxAlloc_def)
qed

lemma Calculate_steps:
  assumes "0 < amount" and "packSizes c \<noteq> []"
    and "add64 amount (packSizes c ! (length (packSizes c) - 1)) = mt"
    and "add64 mt 1 = int n" and "0 < n" and "8 * int n \<le> maxAlloc"
    and "outer mt (packSizes c) 0 ((replicate n MaxInt32)[0 := 0], replicate n 0) = Inr (dp, parent)"
  shows "Calculate c amount =
             (case find_best dp mt amount of
                Inl e \<Rightarrow> Some (Inl e)
              | Inr bestTotal \<Rightarrow>
                  if bestTotal = - 1 then Some (Inl NoSolution)
                  else (case backtrack parent bestTotal [] of
                          None \<Rightarrow> None
                        | Some (Inl e) \<Rightarrow> Some (Inl e)
                        | Some (Inr ps) \<Rightarrow> Some (Inr (ps, bestTotal))))"
  unfolding Calculate_def using assms by (simp add: make_ints_def in_range_def Let_def)

text \<open>The solver, unfolded down to its last two loops.\<close>

lemma Calculate_unfold:
  assumes A: "1 \<le> A" and S: "S \<noteq> []" and pos: "\<forall>s\<in>set S. 1 \<le> s"
    and alloc: "8 * (A + Max (set S) + 1) \<le> maxAlloc"
  defines "mx \<equiv> Max (set S)"
  defines "n \<equiv> nat (A + mx + 1)"
  shows "\<exists>dp parent. dp_inv S n n {} dp parent \<and>
           Calculate (NewCalculator S) A =
             (case find_best dp (int n - 1) A of
                Inl e \<Rightarrow> Some (Inl e)
              | Inr bestTotal \<Rightarrow>
                  if bestTotal = - 1 then Some (Inl NoSolution)
                  else (case backtrack parent bestTotal [] of
                          None \<Rightarrow> None
                        | Some (Inl e) \<Rightarrow> Some (Inl e)
                        | Some (Inr ps) \<Rightarrow> Some (Inr (ps, bestTotal))))"
proof -
  note nowrap = alloc_nowrap[OF A S pos alloc]
  have mxS: "mx \<in> set S" unfolding mx_def using S by (intro Max_in) auto
  then have mx1: "1 \<le> mx" using pos by blast
  have le_mx: "\<And>s. s \<in> set S \<Longrightarrow> s \<le> mx" unfolding mx_def by simp
  have n: "int n = A + mx + 1" "0 < n" unfolding n_def using A mx1 by auto
  have al: "8 * int n \<le> maxAlloc" unfolding n(1) mx_def using alloc .
  have last: "sort S ! (length (sort S) - 1) = mx" unfolding mx_def by (rule sort_last_Max[OF S])
  have mt: "add64 A mx = A + mx"
    using A mx1 nowrap unfolding mx_def by (intro add64_plain) auto
  have mt1: "add64 (A + mx) 1 = int n"
    unfolding n(1) using A mx1 nowrap unfolding mx_def by (intro add64_plain) auto
  have ok: "sizes_ok (sort S) n"
    unfolding sizes_ok_def
  proof
    fix s assume "s \<in> set (sort S)"
    then have s: "s \<in> set S" by simp
    then have "s \<le> mx" by (rule le_mx)
    moreover have "1 \<le> s" using pos s by blast
    ultimately show "1 \<le> s \<and> int n + s \<le> 9223372036854775808"
      using n(1) nowrap unfolding mx_def by linarith
  qed
  have init: "dp_inv (sort S) n 0 {} ((replicate n MaxInt32)[0 := 0]) (replicate n 0)"
    by (rule dp_inv_init[OF n(2)])
  from outer_inv[OF ok init]
  obtain dp parent where r:
    "outer (int n - 1) (sort S) 0 ((replicate n MaxInt32)[0 := 0], replicate n 0) = Inr (dp, parent)"
    "dp_inv (sort S) n n {} dp parent" by auto
  have inv: "dp_inv S n n {} dp parent"
    using r(2) unfolding dp_inv_def inv_sound_def inv_edges_def inv_complete_def inv_parent_def
    by (simp add: reach_cong[of "sort S" S])
  have m1: "int n - 1 = A + mx" using n(1) by simp
  have ne: "sort S \<noteq> []" using S by (simp add: sort_Nil_iff)
  have ir0: "in_range (map (\<lambda>_. MaxInt32) (replicate n 0)) 0"
    using n(2) by (simp add: in_range_def)
  have mp: "map (\<lambda>_. MaxInt32) (replicate n (0::int)) = replicate n MaxInt32" by simp
  have "Calculate (NewCalculator S) A =
             (case find_best dp (int n - 1) A of
                Inl e \<Rightarrow> Some (Inl e)
              | Inr bestTotal \<Rightarrow>
                  if bestTotal = - 1 then Some (Inl NoSolution)
                  else (case backtrack parent bestTotal [] of
                          None \<Rightarrow> None
                        | Some (Inl e) \<Rightarrow> Some (Inl e)
                        | Some (Inr ps) \<Rightarrow> Some (Inr (ps, bestTotal))))"
  proof (rule Calculate_steps[where n = n])
    show "0 < A" using A by simp
    show "packSizes (NewCalculator S) \<noteq> []" using ne by (simp add: NewCalculator_def)
    show "add64 A (packSizes (NewCalculator S) ! (length (packSizes (NewCalculator S)) - 1)) = int n - 1"
      unfolding m1 using last mt by (simp add: NewCalculator_def)
    show "add64 (int n - 1) 1 = int n" unfolding m1 by (rule mt1)
    show "0 < n" by (rule n(2))
    show "8 * int n \<le> maxAlloc" by (rule al)
    show "outer (int n - 1) (packSizes (NewCalculator S)) 0
           ((replicate n MaxInt32)[0 := 0], replicate n 0) = Inr (dp, parent)"
      using r(1) by (simp add: NewCalculator_def)
  qed
  then show ?thesis using inv by blast
qed

lemma Calculate_none:
  assumes A: "1 \<le> A" and S: "S \<noteq> []" and pos: "\<forall>s\<in>set S. 1 \<le> s"
    and alloc: "8 * (A + Max (set S) + 1) \<le> maxAlloc"
    and none: "\<forall>j. A \<le> j \<and> j \<le> A + Max (set S) \<longrightarrow> \<not> feasible S j"
  shows "Calculate (NewCalculator S) A = Some (Inl NoSolution)"
proof -
  define n where "n = nat (A + Max (set S) + 1)"
  have mx1: "1 \<le> Max (set S)" using pos S by (simp add: Max_in)
  have n: "int n = A + Max (set S) + 1" unfolding n_def using A mx1 by simp
  from Calculate_unfold[OF A S pos alloc, folded n_def]
  obtain dp parent where inv: "dp_inv S n n {} dp parent"
    and calc: "Calculate (NewCalculator S) A =
             (case find_best dp (int n - 1) A of
                Inl e \<Rightarrow> Some (Inl e)
              | Inr bestTotal \<Rightarrow>
                  if bestTotal = - 1 then Some (Inl NoSolution)
                  else (case backtrack parent bestTotal [] of
                          None \<Rightarrow> None
                        | Some (Inl e) \<Rightarrow> Some (Inl e)
                        | Some (Inr ps) \<Rightarrow> Some (Inr (ps, bestTotal))))" by blast
  have len: "length dp = n" using inv unfolding dp_inv_def inv_shape_def by simp
  have An: "nat A \<le> n" "int (nat A) = A" using A n mx1 by auto
  from find_best_char[OF len An(1)]
  have "find_best dp (int n - 1) A = Inr (- 1)"
  proof
    assume "\<exists>t. find_best dp (int n - 1) (int (nat A)) = Inr (int t) \<and> nat A \<le> t \<and> t < n \<and>
        dp ! t \<noteq> MaxInt32 \<and> (\<forall>j. nat A \<le> j \<and> j < t \<longrightarrow> dp ! j = MaxInt32)"
    then obtain t where t: "nat A \<le> t" "t < n" "dp ! t \<noteq> MaxInt32" by blast
    then have "feasible S (int t)" using dp_final(1)[OF inv t(2)] by simp
    moreover have "A \<le> int t" "int t \<le> A + Max (set S)" using t n by auto
    ultimately show ?thesis using none by blast
  next
    assume "find_best dp (int n - 1) (int (nat A)) = Inr (- 1) \<and>
        (\<forall>j. nat A \<le> j \<and> j < n \<longrightarrow> dp ! j = MaxInt32)"
    then show ?thesis using An(2) by simp
  qed
  then show ?thesis using calc by simp
qed

lemma Calculate_some:
  assumes A: "1 \<le> A" and S: "S \<noteq> []" and pos: "\<forall>s\<in>set S. 1 \<le> s"
    and alloc: "8 * (A + Max (set S) + 1) \<le> maxAlloc"
    and T: "A \<le> T" "T \<le> A + Max (set S)" "feasible S T"
    and least: "\<forall>j. A \<le> j \<and> j < T \<longrightarrow> \<not> feasible S j"
  shows "\<exists>ps. Calculate (NewCalculator S) A = Some (Inr (ps, T)) \<and>
           distinct (map fst ps) \<and> (\<forall>(s, c)\<in>set ps. s \<in> set S \<and> 1 \<le> c) \<and>
           weight ps = T \<and> count_packs ps = cnt ps \<and>
           reach S T (nat (cnt ps)) \<and> (\<forall>p. reach S T p \<longrightarrow> cnt ps \<le> int p)"
proof -
  define n where "n = nat (A + Max (set S) + 1)"
  have mx1: "1 \<le> Max (set S)" using pos S by (simp add: Max_in)
  have n: "int n = A + Max (set S) + 1" unfolding n_def using A mx1 by simp
  from Calculate_unfold[OF A S pos alloc, folded n_def]
  obtain dp parent where inv: "dp_inv S n n {} dp parent"
    and calc: "Calculate (NewCalculator S) A =
             (case find_best dp (int n - 1) A of
                Inl e \<Rightarrow> Some (Inl e)
              | Inr bestTotal \<Rightarrow>
                  if bestTotal = - 1 then Some (Inl NoSolution)
                  else (case backtrack parent bestTotal [] of
                          None \<Rightarrow> None
                        | Some (Inl e) \<Rightarrow> Some (Inl e)
                        | Some (Inr ps) \<Rightarrow> Some (Inr (ps, bestTotal))))" by blast
  have sh: "inv_shape n dp parent" and pa: "inv_parent S n n dp parent"
    using inv unfolding dp_inv_def by auto
  have len: "length dp = n" using sh unfolding inv_shape_def by simp
  have An: "nat A \<le> n" "int (nat A) = A" using A n mx1 by auto
  define t where "t = nat T"
  have t: "int t = T" "t < n" "nat A \<le> t" unfolding t_def using T A n by auto
  have ft: "dp ! t \<noteq> MaxInt32" using dp_final(1)[OF inv t(2)] T(3) t(1) by simp
  from find_best_char[OF len An(1)]
  have fb: "find_best dp (int n - 1) A = Inr T"
  proof
    assume "\<exists>t. find_best dp (int n - 1) (int (nat A)) = Inr (int t) \<and> nat A \<le> t \<and> t < n \<and>
        dp ! t \<noteq> MaxInt32 \<and> (\<forall>j. nat A \<le> j \<and> j < t \<longrightarrow> dp ! j = MaxInt32)"
    then obtain u where u: "find_best dp (int n - 1) (int (nat A)) = Inr (int u)"
      "nat A \<le> u" "u < n" "dp ! u \<noteq> MaxInt32" "\<forall>j. nat A \<le> j \<and> j < u \<longrightarrow> dp ! j = MaxInt32"
      by blast
    have "\<not> t < u" using u(5) t(3) ft by blast
    moreover have "\<not> u < t"
    proof
      assume "u < t"
      then have "A \<le> int u \<and> int u < T" using u(2) t(1) An(2) by linarith
      then have "\<not> feasible S (int u)" using least by blast
      then show False using dp_final(1)[OF inv u(3)] u(4) by simp
    qed
    ultimately have "u = t" by simp
    then show ?thesis using u(1) t(1) An(2) by simp
  next
    assume "find_best dp (int n - 1) (int (nat A)) = Inr (- 1) \<and>
        (\<forall>j. nat A \<le> j \<and> j < n \<longrightarrow> dp ! j = MaxInt32)"
    then have "dp ! t = MaxInt32" using t by blast
    then show ?thesis using ft by simp
  qed
  have T1: "T \<noteq> - 1" using T(1) A by simp
  have bn: "int n \<le> 9223372036854775808"
    using n alloc_nowrap[OF A S pos alloc] mx1 by linarith
  have rng: "0 \<le> dp ! t" "dp ! t \<le> MaxInt32" using dp_final(4,5)[OF inv t(2)] by auto
  have c0: "\<forall>(s, c)\<in>set ([]::packs). 1 \<le> c" by simp
  have b0: "cnt [] + dp ! t \<le> MaxInt32" using rng by (simp add: cnt_def)
  from backtrack_char[OF sh pa t(2) ft c0 b0 bn]
  obtain ps where bt: "backtrack parent (int t) [] = Some (Inr ps)"
    and w: "weight ps = weight [] + int t" and c: "cnt ps = cnt [] + dp ! t"
    and c1: "\<forall>(s, c)\<in>set ps. 1 \<le> c" and keys: "fst ` set ps \<subseteq> fst ` set ([]::packs) \<union> set S"
    and dist: "distinct (map fst ([]::packs)) \<longrightarrow> distinct (map fst ps)" by blast
  have cp: "cnt ps = dp ! t" using c by (simp add: cnt_def)
  have res: "Calculate (NewCalculator S) A = Some (Inr (ps, T))"
    using calc fb T1 bt t(1) by simp
  have "count_packs ps = cnt ps"
    using c1 cp rng by (intro count_packs_cnt) (auto simp: MaxInt32_def)
  moreover have "reach S T (nat (cnt ps))"
    using dp_final(2)[OF inv t(2) ft] cp t(1) by simp
  moreover have "\<forall>p. reach S T p \<longrightarrow> cnt ps \<le> int p"
    using dp_final(3)[OF inv t(2)] cp t(1) by simp
  moreover have "\<forall>(s, c)\<in>set ps. s \<in> set S \<and> 1 \<le> c"
    using c1 keys by fastforce
  moreover have "weight ps = T" using w t(1) by (simp add: weight_def)
  moreover have "distinct (map fst ps)" using dist by simp
  ultimately show ?thesis using res by blast
qed

lemma sum_list_ge_length_times:
  "\<forall>x\<in>set xs. (m::int) \<le> x \<Longrightarrow> int (length xs) * m \<le> sum_list xs"
  by (induction xs) (auto simp: algebra_simps)

lemma reach_packs_min:
  assumes "reach S j q" and "\<forall>s\<in>set S. m \<le> s"
  shows "int q * m \<le> j"
proof -
  from assms(1) obtain xs where xs: "set xs \<subseteq> set S" "sum_list xs = j" "length xs = q"
    unfolding reach_def by blast
  have "\<forall>x\<in>set xs. m \<le> x" using xs(1) assms(2) by blast
  from sum_list_ge_length_times[OF this] show ?thesis using xs by simp
qed

text \<open>The smallest total reachable from \<open>A\<close> on.\<close>

lemma least_total:
  assumes A: "1 \<le> A" and S: "S \<noteq> []" and pos: "\<forall>s\<in>set S. 1 \<le> s"
  shows "\<exists>T. A \<le> T \<and> T < A + Max (set S) \<and> (\<exists>p. reach S T p) \<and>
           (\<forall>p. reach S T p \<longrightarrow> int p \<le> A) \<and>
           (\<forall>j p. A \<le> j \<and> reach S j p \<longrightarrow> T \<le> j) \<and>
           (\<forall>p. reach S T p \<longrightarrow> (int p - 1) * Min (set S) < A)"
proof -
  define mx where "mx = Max (set S)"
  have mn: "\<forall>s\<in>set S. Min (set S) \<le> s" by simp
  have mxS: "mx \<in> set S" unfolding mx_def using S by (intro Max_in) auto
  then have mx1: "1 \<le> mx" using pos by blast
  have le_mx: "\<And>s. s \<in> set S \<Longrightarrow> s \<le> mx" unfolding mx_def by simp
  define Q where "Q = (\<lambda>k::nat. \<exists>p. reach S (A + int k) p)"
  have "reach S (sum_list (replicate (nat A) mx)) (length (replicate (nat A) mx))"
    unfolding reach_def using mxS by (intro exI[of _ "replicate (nat A) mx"]) auto
  then have r0: "reach S (A * mx) (nat A)" using A by (simp add: sum_list_replicate)
  have "A \<le> A * mx" using A mx1 by (simp add: mult_le_cancel_left1)
  then have "Q (nat (A * mx - A))" unfolding Q_def using r0 by auto
  then have ex: "\<exists>k. Q k" by blast
  define k where "k = (LEAST k. Q k)"
  have Qk: "Q k" unfolding k_def using ex by (rule LeastI_ex)
  have mink: "\<And>m. Q m \<Longrightarrow> k \<le> m" unfolding k_def by (rule Least_le)
  define T where "T = A + int k"
  have TA: "A \<le> T" unfolding T_def by simp
  have rT: "\<exists>p. reach S T p" using Qk unfolding Q_def T_def .
  have minT: "T \<le> j" if "A \<le> j" "reach S j p" for j p
  proof -
    have "Q (nat (j - A))" unfolding Q_def using that by auto
    from mink[OF this] show ?thesis unfolding T_def using that(1) by linarith
  qed
  have drop: "int p \<le> A \<and> T < A + mx \<and> (int p - 1) * Min (set S) < A" if "reach S T p" for p
  proof -
    have "0 < T" using TA A by simp
    from reach_unstep[OF that this pos]
    obtain s q where sq: "s \<in> set S" "p = Suc q" "reach S (T - s) q" "0 \<le> T - s" by blast
    have s1: "1 \<le> s" "s \<le> mx" using pos sq(1) le_mx by auto
    have "T - s < A"
    proof (rule ccontr)
      assume "\<not> T - s < A"
      then have "T \<le> T - s" using minT[OF _ sq(3)] by simp
      then show False using s1 by simp
    qed
    moreover have "int q \<le> T - s" by (rule reach_packs_le[OF sq(3) pos])
    moreover have "int q * Min (set S) \<le> T - s" by (rule reach_packs_min[OF sq(3) mn])
    ultimately show ?thesis using sq(2) s1 by auto
  qed
  have "T < A + mx" using rT drop by blast
  then show ?thesis using TA rT drop minT unfolding mx_def by blast
qed

lemma feasibleI: "set xs \<subseteq> set S \<Longrightarrow> sum_list xs = j \<Longrightarrow> int (length xs) < MaxInt32 \<Longrightarrow> feasible S j"
  unfolding feasible_def reach_def by blast

lemma reach_listD: "reach S j p \<Longrightarrow> \<exists>xs. set xs \<subseteq> set S \<and> sum_list xs = j \<and> length xs = p"
  unfolding reach_def .

lemma reach_listI: "set xs \<subseteq> set S \<Longrightarrow> reach S (sum_list xs) (length xs)"
  unfolding reach_def by blast

text \<open>The solver on every accepted request, in one statement.\<close>

lemma Calculate_correct:
  assumes A: "1 \<le> A" "A \<le> Min (set S) * (MaxInt32 - 1)"
    and S: "S \<noteq> []" and pos: "\<forall>s\<in>set S. 1 \<le> s"
    and alloc: "8 * (A + Max (set S) + 1) \<le> maxAlloc"
  shows "\<exists>ps T. Calculate (NewCalculator S) A = Some (Inr (ps, T)) \<and>
           CalculateWithDetails (NewCalculator S) A = Some (Inr (ps, T, cnt ps)) \<and>
           distinct (map fst ps) \<and> (\<forall>(s, c)\<in>set ps. s \<in> set S \<and> 1 \<le> c) \<and>
           weight ps = T \<and> A \<le> T \<and>
           (\<exists>xs. set xs \<subseteq> set S \<and> sum_list xs = T \<and> int (length xs) = cnt ps) \<and>
           (\<forall>xs. set xs \<subseteq> set S \<and> A \<le> sum_list xs \<longrightarrow> T \<le> sum_list xs) \<and>
           (\<forall>xs. set xs \<subseteq> set S \<and> sum_list xs = T \<longrightarrow> cnt ps \<le> int (length xs))"
proof -
  from least_total[OF A(1) S pos]
  obtain T where T: "A \<le> T" "T < A + Max (set S)" "\<exists>p. reach S T p"
    "\<forall>p. reach S T p \<longrightarrow> int p \<le> A" "\<forall>j p. A \<le> j \<and> reach S j p \<longrightarrow> T \<le> j"
    "\<forall>p. reach S T p \<longrightarrow> (int p - 1) * Min (set S) < A" by blast
  have m1: "1 \<le> Min (set S)" using S pos by simp
  have fe: "feasible S T"
  proof -
    from T(3) obtain p where p: "reach S T p" by blast
    have "int p < MaxInt32"
    proof (rule ccontr)
      assume "\<not> int p < MaxInt32"
      then have "MaxInt32 - 1 \<le> int p - 1" by simp
      then have "(MaxInt32 - 1) * Min (set S) \<le> (int p - 1) * Min (set S)"
        using m1 by (intro mult_right_mono) auto
      moreover have "(int p - 1) * Min (set S) < A" using T(6) p by blast
      moreover have "A \<le> (MaxInt32 - 1) * Min (set S)" using A(2) by (simp add: mult.commute)
      ultimately show False by linarith
    qed
    then show ?thesis unfolding feasible_def using p by blast
  qed
  have least: "\<forall>j. A \<le> j \<and> j < T \<longrightarrow> \<not> feasible S j"
    unfolding feasible_def using T(5) by fastforce
  have T2: "T \<le> A + Max (set S)" using T(2) by simp
  from Calculate_some[OF A(1) S pos alloc T(1) T2 fe least]
  obtain ps where ps: "Calculate (NewCalculator S) A = Some (Inr (ps, T))"
    "distinct (map fst ps)" "\<forall>(s, c)\<in>set ps. s \<in> set S \<and> 1 \<le> c"
    "weight ps = T" "count_packs ps = cnt ps"
    "reach S T (nat (cnt ps))" "\<forall>p. reach S T p \<longrightarrow> cnt ps \<le> int p" by blast
  have c0: "0 \<le> cnt ps"
  proof -
    obtain p where "reach S T p" using T(3) by blast
    have "\<forall>(s, c)\<in>set ps. 1 \<le> c" using ps(3) by fastforce
    from lookup0_bounds[OF this, of 0] show ?thesis by linarith
  qed
  have d: "CalculateWithDetails (NewCalculator S) A = Some (Inr (ps, T, cnt ps))"
    unfolding CalculateWithDetails_def using ps(1,5) by simp
  from reach_listD[OF ps(6)] obtain xs where xs: "set xs \<subseteq> set S" "sum_list xs = T"
    "length xs = nat (cnt ps)" by blast
  have e: "\<exists>xs. set xs \<subseteq> set S \<and> sum_list xs = T \<and> int (length xs) = cnt ps"
    using xs c0 by (intro exI[of _ xs]) simp
  have i: "\<forall>xs. set xs \<subseteq> set S \<and> A \<le> sum_list xs \<longrightarrow> T \<le> sum_list xs"
    using T(5) reach_listI by blast
  have p: "\<forall>xs. set xs \<subseteq> set S \<and> sum_list xs = T \<longrightarrow> cnt ps \<le> int (length xs)"
    using ps(7) reach_listI by blast
  show ?thesis using ps(1,2,3,4) d T(1) e i p by blast
qed

subsection \<open>The sentinel at the edge of the 32-bit range\<close>

lemma only_ones:
  assumes "set xs \<subseteq> {1, b}" and "sum_list xs < b" and "(1::int) \<le> b"
  shows "sum_list xs = int (length xs)"
  using assms
proof (induction xs)
  case Nil
  then show ?case by simp
next
  case (Cons x xs)
  have "\<forall>y\<in>set xs. 1 \<le> y" using Cons.prems(1,3) by auto
  then have "int (length xs) \<le> sum_list xs" by (rule sum_list_pos_ge_length)
  then have nn: "0 \<le> sum_list xs" by linarith
  have x: "x = 1 \<or> x = b" using Cons.prems(1) by auto
  then have "x = 1" using Cons.prems(2) nn by auto
  then show ?case using Cons by auto
qed

lemma ones_not_feasible:
  assumes "MaxInt32 \<le> j" and "j < b"
  shows "\<not> feasible [1, b] j"
proof
  assume "feasible [1, b] j"
  then obtain xs where xs: "set xs \<subseteq> set [1, b]" "sum_list xs = j" "int (length xs) < MaxInt32"
    unfolding feasible_def reach_def by blast
  have "1 \<le> b" using assms by (simp add: MaxInt32_def)
  from only_ones[of xs b] xs(1,2) assms(2) this have "sum_list xs = int (length xs)" by simp
  then show False using xs assms by simp
qed

lemma ones_not_feasible1:
  assumes "MaxInt32 \<le> j"
  shows "\<not> feasible [1] j"
proof
  assume "feasible [1] j"
  then obtain xs where xs: "set xs \<subseteq> set [1]" "sum_list xs = j" "int (length xs) < MaxInt32"
    unfolding feasible_def reach_def by blast
  from only_ones[of xs "j + 1"] xs(1,2) assms have "sum_list xs = int (length xs)"
    by (auto simp: MaxInt32_def)
  then show False using xs assms by simp
qed

lemma sentinel_no_solution:
  "Calculate (NewCalculator [1]) 2147483647 = Some (Inl NoSolution)"
proof (rule Calculate_none)
  show "\<forall>j. 2147483647 \<le> j \<and> j \<le> 2147483647 + Max (set [1]) \<longrightarrow> \<not> feasible [1] j"
    using ones_not_feasible1 by (simp add: MaxInt32_def)
qed (simp_all add: maxAlloc_def)

lemma sentinel_wrong_total:
  "\<exists>ps. Calculate (NewCalculator [1, 2147483648]) 2147483647 = Some (Inr (ps, 2147483648))"
proof -
  have f: "feasible [1, 2147483648] 2147483648"
    by (rule feasibleI[of "[2147483648]"]) (simp_all add: MaxInt32_def)
  have l: "\<forall>j. 2147483647 \<le> j \<and> j < 2147483648 \<longrightarrow> \<not> feasible [1, 2147483648] j"
    using ones_not_feasible[of _ 2147483648] by (simp add: MaxInt32_def)
  have "\<exists>ps. Calculate (NewCalculator [1, 2147483648]) 2147483647 = Some (Inr (ps, 2147483648)) \<and>
           distinct (map fst ps) \<and> (\<forall>(s, c)\<in>set ps. s \<in> set [1, 2147483648] \<and> 1 \<le> c) \<and>
           weight ps = 2147483648 \<and> count_packs ps = cnt ps \<and>
           reach [1, 2147483648] 2147483648 (nat (cnt ps)) \<and> (\<forall>p. reach [1, 2147483648] 2147483648 p \<longrightarrow> cnt ps \<le> int p)"
    by (rule Calculate_some[OF _ _ _ _ _ _ f l]) (simp_all add: maxAlloc_def)
  then show ?thesis by blast
qed

subsection \<open>The order of 500000 items over the sizes 23, 31 and 53\<close>

lemma weight_keys:
  assumes "distinct (map fst ps)"
  shows "weight ps = (\<Sum>k\<in>fst ` set ps. k * lookup0 ps k)"
    and "cnt ps = (\<Sum>k\<in>fst ` set ps. lookup0 ps k)"
  using assms
proof (induction ps)
  case Nil
  { case 1 show ?case by (simp add: weight_def) }
  { case 2 show ?case by (simp add: cnt_def) }
next
  case (Cons a ps)
  obtain s c where a: "a = (s, c)" by (cases a)
  { case 1
    then have d: "distinct (map fst ps)" and ns: "s \<notin> fst ` set ps" using a by auto
    have "\<And>k. k \<in> fst ` set ps \<Longrightarrow> lookup0 (a # ps) k = lookup0 ps k"
      using ns a by (auto simp: lookup0_def)
    then have "(\<Sum>k\<in>fst ` set ps. k * lookup0 (a # ps) k) = (\<Sum>k\<in>fst ` set ps. k * lookup0 ps k)"
      by (intro sum.cong) auto
    moreover have "lookup0 (a # ps) s = c" using a by (simp add: lookup0_def)
    moreover have "weight (a # ps) = s * c + weight ps" using a by (simp add: weight_def)
    ultimately show ?case using Cons.IH(1)[OF d] ns a by simp }
  { case 2
    then have d: "distinct (map fst ps)" and ns: "s \<notin> fst ` set ps" using a by auto
    have "\<And>k. k \<in> fst ` set ps \<Longrightarrow> lookup0 (a # ps) k = lookup0 ps k"
      using ns a by (auto simp: lookup0_def)
    then have "(\<Sum>k\<in>fst ` set ps. lookup0 (a # ps) k) = (\<Sum>k\<in>fst ` set ps. lookup0 ps k)"
      by (intro sum.cong) auto
    moreover have "lookup0 (a # ps) s = c" using a by (simp add: lookup0_def)
    moreover have "cnt (a # ps) = c + cnt ps" using a by (simp add: cnt_def)
    ultimately show ?case using Cons.IH(2)[OF d] ns a by simp }
qed

lemma lookup0_absent: "k \<notin> fst ` set ps \<Longrightarrow> lookup0 ps k = 0"
proof -
  assume "k \<notin> fst ` set ps"
  then have "map_of ps k = None" by (simp add: map_of_eq_None_iff)
  then show ?thesis by (simp add: lookup0_def)
qed

lemma weight_over:
  assumes "distinct (map fst ps)" and "fst ` set ps \<subseteq> K" and "finite K"
  shows "weight ps = (\<Sum>k\<in>K. k * lookup0 ps k)" and "cnt ps = (\<Sum>k\<in>K. lookup0 ps k)"
proof -
  have "(\<Sum>k\<in>fst ` set ps. k * lookup0 ps k) = (\<Sum>k\<in>K. k * lookup0 ps k)"
    using assms(2,3) by (intro sum.mono_neutral_left) (auto simp: lookup0_absent)
  then show "weight ps = (\<Sum>k\<in>K. k * lookup0 ps k)" using weight_keys(1)[OF assms(1)] by simp
  have "(\<Sum>k\<in>fst ` set ps. lookup0 ps k) = (\<Sum>k\<in>K. lookup0 ps k)"
    using assms(2,3) by (intro sum.mono_neutral_left) (auto simp: lookup0_absent)
  then show "cnt ps = (\<Sum>k\<in>K. lookup0 ps k)" using weight_keys(2)[OF assms(1)] by simp
qed

lemma edge_case_table:
  "list_all (\<lambda>P. list_all (\<lambda>a. list_all (\<lambda>b.
     30 * a + 22 * b = 53 * P - 500000 \<longrightarrow> a = 2 \<and> b = 7 \<and> P = 9438)
       [0, 1, 2, 3, 4, 5, 6, 7, 8, 9]) [0, 1, 2, 3, 4, 5, 6, 7]) [9434, 9435, 9436, 9437, 9438 :: int]"
  by simp

lemma edge_case_arith:
  fixes a b c :: int
  assumes "0 \<le> a" "0 \<le> b" "0 \<le> c" and "23 * a + 31 * b + 53 * c = 500000"
    and "a + b + c \<le> 9438"
  shows "a = 2 \<and> b = 7 \<and> c = 9429"
proof -
  define P where "P = a + b + c"
  have e: "30 * a + 22 * b = 53 * P - 500000" unfolding P_def using assms(4) by simp
  have "500000 \<le> 53 * P" using e assms(1,2) by linarith
  have P1: "9434 \<le> P"
  proof (rule ccontr)
    assume "\<not> 9434 \<le> P"
    then have "53 * P \<le> 499949" by simp
    with \<open>500000 \<le> 53 * P\<close> show False by simp
  qed
  have P2: "P \<le> 9438" using assms(5) unfolding P_def .
  have a: "a \<le> 7" using e P2 assms(2) by linarith
  have b: "b \<le> 9" using e P2 assms(1) by linarith
  have m: "P \<in> set [9434, 9435, 9436, 9437, 9438]" "a \<in> set [0, 1, 2, 3, 4, 5, 6, 7]"
    "b \<in> set [0, 1, 2, 3, 4, 5, 6, 7, 8, 9]"
    using P1 P2 a b assms(1,2) by (simp_all, presburger+)
  have "a = 2 \<and> b = 7 \<and> P = 9438"
    using edge_case_table m e unfolding list_all_iff by blast
  then show ?thesis unfolding P_def by simp
qed

text \<open>
  Claim C8. For \<open>A = 500000\<close> and \<open>S = {23, 31, 53}\<close> the solver returns the total
  \<open>500000\<close>, \<open>9438\<close> packs and the map \<open>{23: 2, 31: 7, 53: 9429}\<close>.
\<close>

theorem edge_case_500000:
  "\<exists>M. CalculateWithDetails (NewCalculator [23, 31, 53]) 500000 = Some (Inr (M, 500000, 9438)) \<and>
        map_of M = [23 \<mapsto> 2, 31 \<mapsto> 7, 53 \<mapsto> 9429]"
proof -
  let ?S = "[23, 31, 53] :: int list"
  let ?w = "replicate 2 23 @ replicate 7 31 @ replicate 9429 (53::int)"
  have wS: "set ?w \<subseteq> set ?S" by auto
  have wsum: "sum_list ?w = 500000" by (simp add: sum_list_replicate)
  have wlen: "length ?w = 9438" by simp
  have f: "feasible ?S 500000"
    by (rule feasibleI[OF wS wsum]) (simp add: MaxInt32_def)
  have l: "\<forall>j. (500000::int) \<le> j \<and> j < 500000 \<longrightarrow> \<not> feasible ?S j" by auto
  have "\<exists>ps. Calculate (NewCalculator ?S) 500000 = Some (Inr (ps, 500000)) \<and>
           distinct (map fst ps) \<and> (\<forall>(s, c)\<in>set ps. s \<in> set ?S \<and> 1 \<le> c) \<and>
           weight ps = 500000 \<and> count_packs ps = cnt ps \<and>
           reach ?S 500000 (nat (cnt ps)) \<and> (\<forall>p. reach ?S 500000 p \<longrightarrow> cnt ps \<le> int p)"
    by (rule Calculate_some[OF _ _ _ _ _ _ f l]) (simp_all add: maxAlloc_def)
  then obtain ps where ps: "Calculate (NewCalculator ?S) 500000 = Some (Inr (ps, 500000))"
    "distinct (map fst ps)" "\<forall>(s, c)\<in>set ps. s \<in> set ?S \<and> 1 \<le> c"
    "weight ps = 500000" "count_packs ps = cnt ps"
    "\<forall>p. reach ?S 500000 p \<longrightarrow> cnt ps \<le> int p" by blast
  have "reach ?S (sum_list ?w) (length ?w)" by (rule reach_listI[OF wS])
  then have "reach ?S 500000 9438" unfolding wsum wlen .
  then have cle: "cnt ps \<le> 9438" using ps(6) by fastforce
  have keys: "fst ` set ps \<subseteq> {23, 31, 53}" using ps(3) by fastforce
  have c1: "\<forall>(s, c)\<in>set ps. 1 \<le> c" using ps(3) by fastforce
  have w: "weight ps = 23 * lookup0 ps 23 + 31 * lookup0 ps 31 + 53 * lookup0 ps 53"
    using weight_over(1)[OF ps(2) keys] by simp
  have c: "cnt ps = lookup0 ps 23 + lookup0 ps 31 + lookup0 ps 53"
    using weight_over(2)[OF ps(2) keys] by simp
  have nn: "0 \<le> lookup0 ps 23" "0 \<le> lookup0 ps 31" "0 \<le> lookup0 ps 53"
    using lookup0_bounds[OF c1] by auto
  have v: "lookup0 ps 23 = 2 \<and> lookup0 ps 31 = 7 \<and> lookup0 ps 53 = 9429"
    using nn w c cle ps(4) by (intro edge_case_arith) auto
  have total: "cnt ps = 9438" using c v by simp
  have some: "\<And>k n. lookup0 ps k = n \<Longrightarrow> n \<noteq> 0 \<Longrightarrow> map_of ps k = Some n"
    by (auto simp: lookup0_def split: option.splits)
  have m1: "map_of ps 23 = Some 2" "map_of ps 31 = Some 7" "map_of ps 53 = Some 9429"
    using v by (auto intro: some)
  have m0: "\<And>k. k \<notin> {23, 31, 53} \<Longrightarrow> map_of ps k = None"
    using keys by (auto simp: map_of_eq_None_iff)
  have "map_of ps = [23 \<mapsto> 2, 31 \<mapsto> 7, 53 \<mapsto> 9429]"
  proof
    fix k show "map_of ps k = [23 \<mapsto> 2, 31 \<mapsto> 7, 53 \<mapsto> 9429] k"
      using m1 m0[of k] by (cases "k \<in> {23, 31, 53}") auto
  qed
  moreover have "CalculateWithDetails (NewCalculator ?S) 500000 = Some (Inr (ps, 500000, 9438))"
    unfolding CalculateWithDetails_def using ps(1,5) total by simp
  ultimately show ?thesis by blast
qed

lemma sum_weight: "(\<Sum>(s, c)\<leftarrow>M. s * c) = weight M" "(\<Sum>(s, c)\<leftarrow>M. c) = cnt M"
  by (simp_all add: weight_def cnt_def)

subsection \<open>Results of the solver\<close>

text \<open>
  Claim C1, amended. For every amount \<open>A\<close> with \<open>1 \<le> A \<le> 10000000\<close> and every non-empty
  list \<open>S\<close> of positive pack sizes for which the two arrays of \<open>A + max S + 1\<close> elements can
  be made (\<open>8 * (A + max S + 1) \<le> maxAlloc\<close>, that is \<open>A + max S + 1 \<le> 2^45\<close>, on a
  machine with the memory for them), \<open>Calculate\<close> and \<open>CalculateWithDetails\<close> return a map \<open>M\<close> with distinct keys drawn from \<open>S\<close> and every
  count at least 1, a total \<open>T\<close> and a pack count \<open>P\<close> with \<open>T = \<Sum> s * M[s]\<close>,
  \<open>P = \<Sum> M[s]\<close> and \<open>T \<ge> A\<close>.
\<close>

theorem solver_result_sound:
  assumes "1 \<le> A" and "A \<le> 10000000" and "S \<noteq> []" and "\<forall>s\<in>set S. 1 \<le> s"
    and "8 * (A + Max (set S) + 1) \<le> maxAlloc"
  shows "\<exists>M T P. CalculateWithDetails (NewCalculator S) A = Some (Inr (M, T, P)) \<and>
           Calculate (NewCalculator S) A = Some (Inr (M, T)) \<and>
           distinct (map fst M) \<and> (\<forall>(s, c)\<in>set M. s \<in> set S \<and> 1 \<le> c) \<and>
           T = (\<Sum>(s, c)\<leftarrow>M. s * c) \<and> P = (\<Sum>(s, c)\<leftarrow>M. c) \<and> A \<le> T"
proof -
  have "1 \<le> Min (set S)" using assms(3,4) by simp
  then have "1 * (MaxInt32 - 1) \<le> Min (set S) * (MaxInt32 - 1)"
    by (intro mult_right_mono) (simp_all add: MaxInt32_def)
  then have a: "A \<le> Min (set S) * (MaxInt32 - 1)" using assms(2) by (simp add: MaxInt32_def)
  from Calculate_correct[OF assms(1) a assms(3,4,5)]
  obtain ps T where r: "Calculate (NewCalculator S) A = Some (Inr (ps, T))"
    "CalculateWithDetails (NewCalculator S) A = Some (Inr (ps, T, cnt ps))"
    "distinct (map fst ps)" "\<forall>(s, c)\<in>set ps. s \<in> set S \<and> 1 \<le> c" "weight ps = T" "A \<le> T"
    by blast
  show ?thesis
    unfolding sum_weight using r by blast
qed

text \<open>The theorem at \<open>A = 251\<close>, \<open>S = [250, 500]\<close>.\<close>

theorem solver_result_sound_witness:
  "\<exists>M T P. CalculateWithDetails (NewCalculator [250, 500]) 251 = Some (Inr (M, T, P)) \<and>
           Calculate (NewCalculator [250, 500]) 251 = Some (Inr (M, T)) \<and>
           distinct (map fst M) \<and> (\<forall>(s, c)\<in>set M. s \<in> set [250, 500] \<and> 1 \<le> c) \<and>
           T = (\<Sum>(s, c)\<leftarrow>M. s * c) \<and> P = (\<Sum>(s, c)\<leftarrow>M. c) \<and> 251 \<le> T"
  using solver_result_sound[of 251 "[250, 500]"] by (simp add: maxAlloc_def)

text \<open>
  Claim C1 as stated covers every list of positive sizes. With the single size
  \<open>2^61 = 2305843009213693952\<close> and \<open>A = 1\<close> the array of \<open>maxTarget + 1\<close> elements is
  larger than \<open>make\<close> allocates, and with the single size \<open>9223372036854775807\<close> the sum
  \<open>amount + max\<close> wraps to \<open>-2^63\<close> and the length is negative: in both cases
  \<open>make([]int, maxTarget+1)\<close> panics and no result is returned.
\<close>

theorem solver_allocation_counterexample:
  "CalculateWithDetails (NewCalculator [2305843009213693952]) 1 = Some (Inl RuntimePanic) \<and>
   CalculateWithDetails (NewCalculator [9223372036854775807]) 1 = Some (Inl RuntimePanic)"
  by code_simp

text \<open>
  Claim C2 says that for every \<open>A \<ge> 1\<close> and every non-empty list of positive sizes the
  total returned is the smallest total of a combination that is at least \<open>A\<close>, with the
  fewest packs for that total. The solver breaks it at \<open>A = 2147483647\<close> and
  \<open>S = [1, 2147483648]\<close>: the total \<open>2147483647\<close> is reached by 2147483647 packs of size
  1, but that count is \<open>math.MaxInt32\<close>, the value \<open>dp\<close> holds for a state that cannot be
  reached; the search skips the state, and the solver returns the total \<open>2147483648\<close>.
\<close>

theorem solver_sentinel_total:
  "(\<exists>M P. CalculateWithDetails (NewCalculator [1, 2147483648]) 2147483647 =
            Some (Inr (M, 2147483648, P))) \<and>
   set (replicate 2147483647 1) \<subseteq> set [1, 2147483648 :: int] \<and>
   sum_list (replicate 2147483647 1) = (2147483647 :: int)"
proof -
  from sentinel_wrong_total obtain ps where
    "Calculate (NewCalculator [1, 2147483648]) 2147483647 = Some (Inr (ps, 2147483648))" by blast
  then have "\<exists>M P. CalculateWithDetails (NewCalculator [1, 2147483648]) 2147483647 =
            Some (Inr (M, 2147483648, P))"
    by (simp add: CalculateWithDetails_def)
  then show ?thesis by (simp add: sum_list_replicate)
qed

text \<open>
  Claim C3 says that the solver fails on invalid input only: "amount must be positive"
  when \<open>A \<le> 0\<close>, "no pack sizes available" when \<open>S\<close> is empty, and no error for \<open>A \<ge> 1\<close>
  and a non-empty list of positive sizes. The solver breaks the last part at
  \<open>A = 2147483647\<close> and \<open>S = [1]\<close>: 2147483647 packs of size 1 make the amount exactly,
  but the two totals searched, \<open>2147483647\<close> and \<open>2147483648\<close>, need as many packs as the
  sentinel \<open>math.MaxInt32\<close> or more, both states count as not reached, and the solver
  returns "no valid pack combination found".
\<close>

theorem solver_sentinel_no_solution:
  "Calculate (NewCalculator [1]) 2147483647 = Some (Inl NoSolution) \<and>
   set (replicate 2147483647 1) \<subseteq> set [1 :: int] \<and>
   sum_list (replicate 2147483647 1) = (2147483647 :: int)"
  using sentinel_no_solution by (simp add: sum_list_replicate)

subsection \<open>The solver where the sentinel is out of reach\<close>

text \<open>
  A combination that is the smallest total from \<open>A\<close> on loses that property when one pack
  is taken away, so it has at most \<open>(A - 1) div min S + 1\<close> packs. For
  \<open>A \<le> 2147483646 * min S\<close> this is below \<open>math.MaxInt32\<close>, the sentinel does not meet a
  count the solver needs, and when the arrays can be made the pair \<open>(T, P)\<close> returned is
  lexicographically minimal: \<open>T\<close> is the total of a combination of \<open>P\<close> packs over \<open>S\<close>, no
  combination over \<open>S\<close> has a total in \<open>[A, T - 1]\<close>, and no combination with total \<open>T\<close>
  has fewer than \<open>P\<close> packs. A combination is a list of packs, each of a size in \<open>S\<close>.
\<close>

theorem solver_lex_minimal:
  assumes "1 \<le> A" and "A \<le> 2147483646 * Min (set S)" and "S \<noteq> []" and "\<forall>s\<in>set S. 1 \<le> s"
    and "8 * (A + Max (set S) + 1) \<le> maxAlloc"
  shows "\<exists>M T P. CalculateWithDetails (NewCalculator S) A = Some (Inr (M, T, P)) \<and> A \<le> T \<and>
           (\<exists>xs. set xs \<subseteq> set S \<and> sum_list xs = T \<and> int (length xs) = P) \<and>
           (\<forall>xs. set xs \<subseteq> set S \<and> A \<le> sum_list xs \<longrightarrow> T \<le> sum_list xs) \<and>
           (\<forall>xs. set xs \<subseteq> set S \<and> sum_list xs = T \<longrightarrow> P \<le> int (length xs))"
proof -
  have a: "A \<le> Min (set S) * (MaxInt32 - 1)"
    using assms(2) by (simp add: MaxInt32_def mult.commute)
  from Calculate_correct[OF assms(1) a assms(3,4,5)]
  obtain ps T where r:
    "CalculateWithDetails (NewCalculator S) A = Some (Inr (ps, T, cnt ps))" "A \<le> T"
    "\<exists>xs. set xs \<subseteq> set S \<and> sum_list xs = T \<and> int (length xs) = cnt ps"
    "\<forall>xs. set xs \<subseteq> set S \<and> A \<le> sum_list xs \<longrightarrow> T \<le> sum_list xs"
    "\<forall>xs. set xs \<subseteq> set S \<and> sum_list xs = T \<longrightarrow> cnt ps \<le> int (length xs)"
    by blast
  then show ?thesis by blast
qed

text \<open>
  The theorem at \<open>A = 2147483647\<close> and \<open>S = [250, 500, 1000, 2000, 5000]\<close>, the largest
  amount of the boundary test of the repository.
\<close>

theorem solver_lex_minimal_witness:
  "\<exists>M T P. CalculateWithDetails (NewCalculator [250, 500, 1000, 2000, 5000]) 2147483647 =
             Some (Inr (M, T, P)) \<and> 2147483647 \<le> T \<and>
           (\<exists>xs. set xs \<subseteq> set [250, 500, 1000, 2000, 5000] \<and> sum_list xs = T \<and> int (length xs) = P) \<and>
           (\<forall>xs. set xs \<subseteq> set [250, 500, 1000, 2000, 5000] \<and> 2147483647 \<le> sum_list xs \<longrightarrow>
                 T \<le> sum_list xs) \<and>
           (\<forall>xs. set xs \<subseteq> set [250, 500, 1000, 2000, 5000] \<and> sum_list xs = T \<longrightarrow>
                 P \<le> int (length xs))"
  using solver_lex_minimal[of 2147483647 "[250, 500, 1000, 2000, 5000]"]
  by (simp add: maxAlloc_def)

text \<open>
  \<open>Calculate\<close> returns the error "amount must be positive" when \<open>A \<le> 0\<close> and the error "no
  pack sizes available" when \<open>A \<ge> 1\<close> and \<open>S\<close> is empty; for every \<open>A\<close> with
  \<open>1 \<le> A \<le> 2147483646 * min S\<close> and every non-empty list of positive sizes for which the
  arrays can be made it returns a result and no error, so the branch "no valid pack
  combination found" is not taken there.
\<close>

theorem solver_errors:
  "(A \<le> 0 \<longrightarrow> Calculate (NewCalculator S) A = Some (Inl InvalidAmount)) \<and>
   (1 \<le> A \<and> S = [] \<longrightarrow> Calculate (NewCalculator S) A = Some (Inl NoConfig)) \<and>
   (1 \<le> A \<and> A \<le> 2147483646 * Min (set S) \<and> S \<noteq> [] \<and> (\<forall>s\<in>set S. 1 \<le> s) \<and>
      8 * (A + Max (set S) + 1) \<le> maxAlloc \<longrightarrow>
    (\<exists>M T. Calculate (NewCalculator S) A = Some (Inr (M, T))))"
proof (intro conjI impI)
  assume "A \<le> 0"
  then show "Calculate (NewCalculator S) A = Some (Inl InvalidAmount)"
    by (simp add: Calculate_def)
next
  assume "1 \<le> A \<and> S = []"
  then show "Calculate (NewCalculator S) A = Some (Inl NoConfig)"
    by (simp add: Calculate_def NewCalculator_def)
next
  assume h: "1 \<le> A \<and> A \<le> 2147483646 * Min (set S) \<and> S \<noteq> [] \<and> (\<forall>s\<in>set S. 1 \<le> s) \<and>
      8 * (A + Max (set S) + 1) \<le> maxAlloc"
  then have a: "A \<le> Min (set S) * (MaxInt32 - 1)" by (simp add: MaxInt32_def mult.commute)
  from Calculate_correct[OF _ a] h
  show "\<exists>M T. Calculate (NewCalculator S) A = Some (Inr (M, T))" by blast
qed

text \<open>
  The three parts of the theorem at \<open>(0, [250, 500])\<close>, \<open>(100, [])\<close> and
  \<open>(2147483646, [1])\<close>, the largest amount over the size 1 that gets a result.
\<close>

theorem solver_errors_witness:
  "Calculate (NewCalculator [250, 500]) 0 = Some (Inl InvalidAmount) \<and>
   Calculate (NewCalculator []) 100 = Some (Inl NoConfig) \<and>
   (\<exists>M T. Calculate (NewCalculator [1]) 2147483646 = Some (Inr (M, T)))"
  using solver_errors[of 0 "[250, 500]"] solver_errors[of 100 "[]"] solver_errors[of 2147483646 "[1]"]
  by (simp add: maxAlloc_def)

section \<open>The constructor and the caller's slice\<close>

text \<open>
  A run of calculations returns the heap it started from, and its results are those of
  the solver on the array of the calculator.
\<close>

lemma Calculate_all_heap:
  "fst (Calculate_all h c amounts) = h"
  "snd (Calculate_all h c amounts) = map (Calculate \<lparr> packSizes = h ! c \<rparr>) amounts"
  by (induction amounts) (simp_all add: Calculate_heap_def case_prod_beta)

text \<open>
  Claim C10. \<open>NewCalculator\<close> and \<open>Calculate\<close> never write to the slice of the caller: the
  constructor copies it to a new array before sorting, so after the construction and
  after any number of calculations every array that existed before, the one of the
  caller among them, holds the elements it held; the new calculator holds the sorted
  copy at a different address, and the calculations return what the solver returns on
  the sorted sizes.
\<close>

theorem constructor_leaves_argument:
  assumes "p < length h"
  shows "(\<forall>a<length h. fst (NewCalculator_heap h p) ! a = h ! a) \<and>
         snd (NewCalculator_heap h p) \<noteq> p \<and>
         fst (NewCalculator_heap h p) ! snd (NewCalculator_heap h p) = packSizes (NewCalculator (h ! p)) \<and>
         (\<forall>a<length h.
            fst (Calculate_all (fst (NewCalculator_heap h p)) (snd (NewCalculator_heap h p)) amounts) ! a
              = h ! a) \<and>
         snd (Calculate_all (fst (NewCalculator_heap h p)) (snd (NewCalculator_heap h p)) amounts) =
           map (Calculate (NewCalculator (h ! p))) amounts"
proof -
  define q where "q = length h"
  define h1 where "h1 = h @ [replicate (length (h ! p)) (0::int)]"
  define h2 where "h2 = copy_slice h1 q p"
  define h3 where "h3 = sort_Ints h2 q"
  have nc: "NewCalculator_heap h p = (h3, q)"
    by (simp add: NewCalculator_heap_def make_slice_def h3_def h2_def h1_def q_def)
  have pq: "p \<noteq> q" "p < q" using assms q_def by auto
  have h1p: "h1 ! p = h ! p" "h1 ! q = replicate (length (h ! p)) 0" "length h1 = Suc q"
    unfolding h1_def q_def using assms by (simp_all add: nth_append)
  have h2q: "h2 ! q = h ! p" and l2: "length h2 = Suc q"
    unfolding h2_def copy_slice_def using h1p by simp_all
  have h3q: "h3 ! q = sort (h ! p)" unfolding h3_def sort_Ints_def using h2q l2 by simp
  have old: "h3 ! a = h ! a" if "a < length h" for a
  proof -
    have "a \<noteq> length h" "a < length h" using that by auto
    then show ?thesis
      unfolding h3_def sort_Ints_def h2_def copy_slice_def h1_def q_def
      by (simp add: Let_def nth_append)
  qed
  show ?thesis
    unfolding nc using old pq h3q by (simp add: Calculate_all_heap NewCalculator_def)
qed

text \<open>The caller's slice \<open>[500, 250, 1000]\<close> stays as it is; the calculator holds \<open>[250, 500, 1000]\<close>.\<close>

theorem constructor_leaves_argument_witness:
  "fst (NewCalculator_heap [[500, 250, 1000]] 0) ! 0 = [500, 250, 1000] \<and>
   fst (NewCalculator_heap [[500, 250, 1000]] 0) ! snd (NewCalculator_heap [[500, 250, 1000]] 0) =
     [250, 500, 1000] \<and>
   fst (Calculate_all (fst (NewCalculator_heap [[500, 250, 1000]] 0))
          (snd (NewCalculator_heap [[500, 250, 1000]] 0)) [251, 501]) ! 0 = [500, 250, 1000]"
  using constructor_leaves_argument[of 0 "[[500, 250, 1000]]" "[251, 501]"]
  by (simp add: NewCalculator_def)

section \<open>Properties of the cache key\<close>

lemma digit_val_char: "d < 10 \<Longrightarrow> digit_val (digit_char d) = d"
  by (simp add: digit_val_def digit_char_def)

lemma is_digit_char: "d < 10 \<Longrightarrow> is_digit (digit_char d)"
  by (simp add: is_digit_def digit_char_def)

lemma undecimal_snoc: "undecimal (s @ [c]) = 10 * undecimal s + digit_val c"
  by (simp add: undecimal_def)

lemma undecimal_decimal: "undecimal (decimal n) = n"
proof (induction n rule: decimal.induct)
  case (1 n)
  show ?case
  proof (cases "n < 10")
    case True
    then show ?thesis by (subst decimal.simps) (simp add: undecimal_def digit_val_char)
  next
    case False
    then have "undecimal (decimal (n div 10)) = n div 10" using 1 by simp
    then show ?thesis using False
      by (subst decimal.simps) (simp add: undecimal_snoc digit_val_char)
  qed
qed

lemma decimal_digits: "\<forall>c\<in>set (decimal n). is_digit c"
proof (induction n rule: decimal.induct)
  case (1 n)
  show ?case
  proof (cases "n < 10")
    case True
    then show ?thesis by (subst decimal.simps) (simp add: is_digit_char)
  next
    case False
    then show ?thesis using 1 by (subst decimal.simps) (simp add: is_digit_char)
  qed
qed

lemma decimal_nonempty: "decimal n \<noteq> []"
  by (subst decimal.simps) simp

lemma decimal_inj: "decimal m = decimal n \<Longrightarrow> m = n"
  by (metis undecimal_decimal)

lemma not_digit: "\<not> is_digit CHR ''-''" "\<not> is_digit CHR '':''" "\<not> is_digit CHR '',''"
  by (simp_all add: is_digit_def)

lemma Itoa_chars: "CHR '':'' \<notin> set (Itoa i)" "CHR '','' \<notin> set (Itoa i)" "Itoa i \<noteq> []"
  using decimal_digits not_digit decimal_nonempty by (auto simp: Itoa_def)

lemma Itoa_inj: "Itoa i = Itoa j \<Longrightarrow> i = j"
proof -
  assume e: "Itoa i = Itoa j"
  have hd: "\<And>n. hd (decimal n) \<noteq> CHR ''-''"
    using decimal_digits decimal_nonempty not_digit(1) by (metis hd_in_set)
  have nm: "\<And>m n. CHR ''-'' # decimal m \<noteq> decimal n" using hd by (metis list.sel(1))
  show "i = j"
  proof (cases "i < 0")
    case True
    then have j: "j < 0" using e nm by (auto simp: Itoa_def split: if_splits)
    then have "decimal (nat (- i)) = decimal (nat (- j))" using e True by (simp add: Itoa_def)
    then have "nat (- i) = nat (- j)" by (rule decimal_inj)
    then show ?thesis using True j by simp
  next
    case False
    then have j: "\<not> j < 0" using e nm[of "nat (- j)" "nat i"] by (auto simp: Itoa_def split: if_splits)
    then have "decimal (nat i) = decimal (nat j)" using e False by (simp add: Itoa_def)
    then have "nat i = nat j" by (rule decimal_inj)
    then show ?thesis using False j by simp
  qed
qed

text \<open>Two strings cut at the same separator agree piece by piece.\<close>

lemma split_unique:
  assumes "a @ r = a' @ r'" and "c \<notin> set a" and "c \<notin> set a'"
    and "r = [] \<or> hd r = c" and "r' = [] \<or> hd r' = c"
  shows "a = a' \<and> r = r'"
  using assms
proof (induction a arbitrary: a')
  case Nil
  show ?case
  proof (cases a')
    case Nil
    then show ?thesis using Nil.prems by simp
  next
    case (Cons x xs)
    then have "r = x # xs @ r'" using Nil.prems(1) by simp
    then have "x = c" using Nil.prems(4) by auto
    then show ?thesis using Nil.prems(3) Cons by simp
  qed
next
  case (Cons x a)
  show ?case
  proof (cases a')
    case Nil
    then have "r' = x # a @ r" using Cons.prems(1) by simp
    then have "x = c" using Cons.prems(5) by auto
    then show ?thesis using Cons.prems(2) by simp
  next
    case (Cons y ys)
    then have "x = y" "a @ r = ys @ r'" using Cons.prems(1) by auto
    moreover have "c \<notin> set a" "c \<notin> set ys" using Cons.prems(2,3) Cons by auto
    ultimately show ?thesis using Cons.IH[of ys] Cons.prems(4,5) Cons by simp
  qed
qed

lemma write_sizes_tail: "0 < i \<Longrightarrow> write_sizes b i xs = b @ comma_sizes xs"
  by (induction xs arbitrary: b i) (simp_all add: comma_sizes_def)

lemma write_sizes_eq:
  "write_sizes b 0 xs =
     b @ (case xs of [] \<Rightarrow> [] | x # rest \<Rightarrow> Itoa x @ comma_sizes rest)"
  by (cases xs) (simp_all add: write_sizes_tail)

lemma comma_sizes_head: "comma_sizes xs = [] \<or> hd (comma_sizes xs) = CHR '',''"
  by (cases xs) (simp_all add: comma_sizes_def)

lemma comma_sizes_inj: "comma_sizes xs = comma_sizes ys \<Longrightarrow> xs = ys"
proof (induction xs arbitrary: ys)
  case Nil
  then show ?case by (cases ys) (simp_all add: comma_sizes_def)
next
  case (Cons x xs)
  then obtain y ys' where ys: "ys = y # ys'" by (cases ys) (auto simp: comma_sizes_def)
  have "Itoa x @ comma_sizes xs = Itoa y @ comma_sizes ys'"
    using Cons.prems ys by (simp add: comma_sizes_def)
  from split_unique[OF this Itoa_chars(2) Itoa_chars(2) comma_sizes_head comma_sizes_head]
  have "Itoa x = Itoa y" "comma_sizes xs = comma_sizes ys'" by auto
  then show ?case using Cons.IH Itoa_inj ys by auto
qed

lemma sizes_text_inj:
  assumes "(case xs of [] \<Rightarrow> [] | x # rest \<Rightarrow> Itoa x @ comma_sizes rest) =
           (case ys of [] \<Rightarrow> [] | y # rest \<Rightarrow> Itoa y @ comma_sizes rest)"
  shows "xs = ys"
proof (cases xs)
  case Nil
  then show ?thesis using assms Itoa_chars(3) by (cases ys) auto
next
  case (Cons x xs')
  then obtain y ys' where ys: "ys = y # ys'" using assms Itoa_chars(3) by (cases ys) auto
  have "Itoa x @ comma_sizes xs' = Itoa y @ comma_sizes ys'" using assms Cons ys by simp
  from split_unique[OF this Itoa_chars(2) Itoa_chars(2) comma_sizes_head comma_sizes_head]
  have "Itoa x = Itoa y" "comma_sizes xs' = comma_sizes ys'" by auto
  then show ?thesis using comma_sizes_inj Itoa_inj Cons ys by auto
qed

lemma GenerateCacheKey_inj:
  assumes "GenerateCacheKey a xs = GenerateCacheKey b ys"
  shows "a = b \<and> xs = ys"
proof -
  let ?t = "\<lambda>xs. case xs of [] \<Rightarrow> [] | x # rest \<Rightarrow> Itoa x @ comma_sizes rest"
  have k: "\<And>a xs. GenerateCacheKey a xs = ''calc:'' @ Itoa a @ CHR '':'' # ?t xs"
    unfolding GenerateCacheKey_def write_sizes_eq by simp
  have "Itoa a @ CHR '':'' # ?t xs = Itoa b @ CHR '':'' # ?t ys"
    using assms unfolding k by simp
  from split_unique[OF this Itoa_chars(1) Itoa_chars(1)]
  have "Itoa a = Itoa b" "?t xs = ?t ys" by auto
  then show ?thesis using Itoa_inj sizes_text_inj by blast
qed

text \<open>
  Claim C4, amended. \<open>GenerateCacheKey\<close> writes the sizes in the order it is given them and
  does not sort: two inputs get the same key exactly when the amounts are equal and the
  lists of sizes are equal element by element. So inputs that differ in \<open>A\<close> or in \<open>S\<close> as
  a set get different keys, and on lists in the store's order (ascending, no duplicates)
  the keys are equal exactly when the inputs are equal as a pair (integer, set).
\<close>

theorem cache_key_injective:
  "(GenerateCacheKey a xs = GenerateCacheKey b ys) = (a = b \<and> xs = ys) \<and>
   (sorted xs \<and> distinct xs \<and> sorted ys \<and> distinct ys \<longrightarrow>
      (GenerateCacheKey a xs = GenerateCacheKey b ys) = (a = b \<and> set xs = set ys))"
proof -
  have i: "(GenerateCacheKey a xs = GenerateCacheKey b ys) = (a = b \<and> xs = ys)"
    using GenerateCacheKey_inj by blast
  show ?thesis unfolding i using sorted_distinct_set_unique by blast
qed

text \<open>The theorem at two pairs of inputs in the store's order.\<close>

theorem cache_key_injective_witness:
  "GenerateCacheKey 251 [250, 500] \<noteq> GenerateCacheKey 252 [250, 500] \<and>
   GenerateCacheKey 251 [250, 500] \<noteq> GenerateCacheKey 251 [250, 1000]"
  using cache_key_injective[of 251 "[250, 500]" 252 "[250, 500]"]
    cache_key_injective[of 251 "[250, 500]" 251 "[250, 1000]"] by simp

text \<open>
  Claim C4 as stated gives every two permutations of a list the same key. The lists
  \<open>[1, 2]\<close> and \<open>[2, 1]\<close> are permutations of each other and get the keys \<open>calc:1:1,2\<close> and
  \<open>calc:1:2,1\<close>.
\<close>

theorem cache_key_order_counterexample:
  "sort [2, 1] = sort [1, 2 :: int] \<and> GenerateCacheKey 1 [1, 2] \<noteq> GenerateCacheKey 1 [2, 1]"
  by code_simp

section \<open>Properties of the LRU cache\<close>

subsection \<open>The recency chain as a list of addresses\<close>






lemma seg_empty_ends: "seg ns p [] h q n \<Longrightarrow> h = n \<and> q = p"
  by simp






lemma set_prev_frame [simp]:
  "items (set_prev a p c) = items c" "head (set_prev a p c) = head c"
  "tail (set_prev a p c) = tail c" "maxSize (set_prev a p c) = maxSize c"
  "hits (set_prev a p c) = hits c" "misses (set_prev a p c) = misses c"
  "length (nodes (set_prev a p c)) = length (nodes c)"
  by (simp_all add: set_prev_def)

lemma set_prev_key [simp]: "key (nodes (set_prev a p c) ! b) = key (nodes c ! b)"
  by (cases "b = a"; cases "a < length (nodes c)") (simp_all add: set_prev_def list_update_beyond)

lemma set_next_frame [simp]:
  "items (set_next a p c) = items c" "head (set_next a p c) = head c"
  "tail (set_next a p c) = tail c" "maxSize (set_next a p c) = maxSize c"
  "hits (set_next a p c) = hits c" "misses (set_next a p c) = misses c"
  "length (nodes (set_next a p c)) = length (nodes c)"
  by (simp_all add: set_next_def)

lemma set_next_key [simp]: "key (nodes (set_next a p c) ! b) = key (nodes c ! b)"
  by (cases "b = a"; cases "a < length (nodes c)") (simp_all add: set_next_def list_update_beyond)

lemma addToFront_frame [simp]:
  "items (addToFront c a) = items c" "maxSize (addToFront c a) = maxSize c"
  "hits (addToFront c a) = hits c" "misses (addToFront c a) = misses c"
  "length (nodes (addToFront c a)) = length (nodes c)"
  "key (nodes (addToFront c a) ! b) = key (nodes c ! b)"
  by (simp_all add: addToFront_def Let_def split: option.splits)

lemma removeNode_frame [simp]:
  "items (removeNode c a) = items c" "maxSize (removeNode c a) = maxSize c"
  "hits (removeNode c a) = hits c" "misses (removeNode c a) = misses c"
  "length (nodes (removeNode c a)) = length (nodes c)"
  "key (nodes (removeNode c a) ! b) = key (nodes c ! b)"
  by (simp_all add: removeNode_def Let_def split: option.splits)

lemma moveToFront_frame [simp]:
  "items (moveToFront c a) = items c" "maxSize (moveToFront c a) = maxSize c"
  "hits (moveToFront c a) = hits c" "misses (moveToFront c a) = misses c"
  "length (nodes (moveToFront c a)) = length (nodes c)"
  "key (nodes (moveToFront c a) ! b) = key (nodes c ! b)"
  by (simp_all add: moveToFront_def)





























subsection \<open>Capacity and counters\<close>




lemma evictLRU_counters [simp]:
  "hits (evictLRU c) = hits c" "misses (evictLRU c) = misses c" "maxSize (evictLRU c) = maxSize c"
  by (simp_all add: evictLRU_def Let_def split: option.splits)

lemma Set_counters [simp]:
  "hits (Set c k ps t ttl now) = hits c" "misses (Set c k ps t ttl now) = misses c"
  by (simp_all add: Set_def Let_def split: option.splits)

lemma Get_counters:
  "(snd (Get c k now) \<noteq> None \<and> hits (fst (Get c k now)) = add64 (hits c) 1 \<and>
      misses (fst (Get c k now)) = misses c) \<or>
   (snd (Get c k now) = None \<and> hits (fst (Get c k now)) = hits c \<and>
      misses (fst (Get c k now)) = add64 (misses c) 1)"
  by (simp add: Get_def split: option.splits)

lemma Get_counts:
  assumes "0 \<le> hits c" "0 \<le> misses c" "hits c + misses c < MaxInt64"
  shows "(snd (Get c k now) \<noteq> None \<and> hits (fst (Get c k now)) = hits c + 1 \<and>
            misses (fst (Get c k now)) = misses c) \<or>
         (snd (Get c k now) = None \<and> hits (fst (Get c k now)) = hits c \<and>
            misses (fst (Get c k now)) = misses c + 1)"
proof -
  have "add64 (hits c) 1 = hits c + 1" "add64 (misses c) 1 = misses c + 1"
    using assms by (auto intro!: add64_plain simp: MaxInt64_def)
  then show ?thesis using Get_counters[of c k now] by simp
qed

lemma gets_since_clear_le: "gets_since_clear n ops \<le> n + length ops"
proof (induction ops arbitrary: n)
  case Nil
  then show ?case by simp
next
  case (Cons op ops)
  show ?case
  proof (cases op)
    case (OpGet k now)
    then show ?thesis using Cons[of "Suc n"] by simp
  next
    case (OpSet k ps t ttl now)
    then show ?thesis using Cons[of n] by simp
  next
    case OpClear
    then show ?thesis using Cons[of 0] by simp
  qed
qed

lemma run_Cons: "run c (op # ops) = run (step c op) ops"
  by (simp add: run_def)

lemma run_counters:
  "0 \<le> hits c \<Longrightarrow> 0 \<le> misses c \<Longrightarrow> hits c + misses c = int n \<Longrightarrow>
   int (n + length ops) \<le> MaxInt64 \<Longrightarrow>
   0 \<le> hits (run c ops) \<and> 0 \<le> misses (run c ops) \<and>
   hits (run c ops) + misses (run c ops) = int (gets_since_clear n ops)"
proof (induction ops arbitrary: c n)
  case Nil
  then show ?case by (simp add: run_def)
next
  case (Cons op ops)
  show ?case
  proof (cases op)
    case (OpGet k now)
    have "hits c + misses c < MaxInt64" using Cons.prems(3,4) by simp
    from Get_counts[OF Cons.prems(1,2) this, of k now]
    have s: "0 \<le> hits (step c op)" "0 \<le> misses (step c op)"
      "hits (step c op) + misses (step c op) = int (Suc n)"
      unfolding OpGet using Cons.prems(1,2,3) by auto
    have b: "int (Suc n + length ops) \<le> MaxInt64" using Cons.prems(4) by simp
    from Cons.IH[OF s b] show ?thesis unfolding OpGet by (simp add: run_Cons)
  next
    case (OpSet k ps t ttl now)
    have s: "0 \<le> hits (step c op)" "0 \<le> misses (step c op)"
      "hits (step c op) + misses (step c op) = int n"
      unfolding OpSet using Cons.prems(1,2,3) by auto
    have b: "int (n + length ops) \<le> MaxInt64" using Cons.prems(4) by simp
    from Cons.IH[OF s b] show ?thesis unfolding OpSet by (simp add: run_Cons)
  next
    case OpClear
    have s: "0 \<le> hits (step c op)" "0 \<le> misses (step c op)"
      "hits (step c op) + misses (step c op) = int 0"
      unfolding OpClear by (simp_all add: Clear_def)
    have b: "int (0 + length ops) \<le> MaxInt64" using Cons.prems(4) by simp
    from Cons.IH[OF s b] show ?thesis unfolding OpClear by (simp add: run_Cons)
  qed
qed

text \<open>
  Claim C6, amended. After every sequence of fewer than \<open>2^63 - 1\<close> cache operations on a
  fresh cache, hits + misses equals the number of \<open>Get\<close> operations completed since the
  last \<open>Clear\<close> (since construction when there was none); from there every \<open>Get\<close> adds one
  to exactly one of the two counters (hits on a hit, misses on a miss) and leaves the
  other unchanged, and \<open>Set\<close> changes neither, so the counters do not decrease between
  two \<open>Clear\<close> operations.
\<close>

theorem counters_since_clear:
  assumes "int (length ops) < MaxInt64"
  shows
    "hits (run (NewMemoryCache C) ops) + misses (run (NewMemoryCache C) ops) =
       int (gets_since_clear 0 ops) \<and>
     (\<forall>k now.
        (snd (Get (run (NewMemoryCache C) ops) k now) \<noteq> None \<and>
         hits (fst (Get (run (NewMemoryCache C) ops) k now)) = hits (run (NewMemoryCache C) ops) + 1 \<and>
         misses (fst (Get (run (NewMemoryCache C) ops) k now)) = misses (run (NewMemoryCache C) ops)) \<or>
        (snd (Get (run (NewMemoryCache C) ops) k now) = None \<and>
         hits (fst (Get (run (NewMemoryCache C) ops) k now)) = hits (run (NewMemoryCache C) ops) \<and>
         misses (fst (Get (run (NewMemoryCache C) ops) k now)) = misses (run (NewMemoryCache C) ops) + 1)) \<and>
     (\<forall>k ps t ttl now.
        hits (Set (run (NewMemoryCache C) ops) k ps t ttl now) = hits (run (NewMemoryCache C) ops) \<and>
        misses (Set (run (NewMemoryCache C) ops) k ps t ttl now) = misses (run (NewMemoryCache C) ops))"
proof -
  define c where "c = run (NewMemoryCache C) ops"
  have i: "0 \<le> hits (NewMemoryCache C)" "0 \<le> misses (NewMemoryCache C)"
    "hits (NewMemoryCache C) + misses (NewMemoryCache C) = int 0"
    by (simp_all add: NewMemoryCache_def)
  have b: "int (0 + length ops) \<le> MaxInt64" using assms by simp
  from run_counters[OF i b]
  have r: "0 \<le> hits c" "0 \<le> misses c" "hits c + misses c = int (gets_since_clear 0 ops)"
    unfolding c_def by auto
  have "gets_since_clear 0 ops \<le> length ops" using gets_since_clear_le[of 0 ops] by simp
  then have lt: "hits c + misses c < MaxInt64" using r(3) assms by linarith
  show ?thesis unfolding c_def[symmetric] using r(3) Get_counts[OF r(1,2) lt] by simp
qed

text \<open>The theorem at a sequence with one \<open>Get\<close> before a \<open>Clear\<close> and one after it.\<close>

theorem counters_since_clear_witness:
  "hits (run (NewMemoryCache 10) [OpGet ''a'' 0, OpClear, OpGet ''b'' 1, OpSet ''b'' [] 250 3600 2]) +
   misses (run (NewMemoryCache 10) [OpGet ''a'' 0, OpClear, OpGet ''b'' 1, OpSet ''b'' [] 250 3600 2]) = 1"
  using counters_since_clear[of "[OpGet ''a'' 0, OpClear, OpGet ''b'' 1, OpSet ''b'' [] 250 3600 2]" 10]
  by (simp add: MaxInt64_def)

text \<open>
  Claim C6 as stated covers every sequence of cache operations. \<open>Clear\<close> stores zero in
  both counters: after a \<open>Get\<close> (a miss) and a \<open>Clear\<close> the miss counter has gone from 1
  to 0 and hits + misses is 0 although one \<open>Get\<close> has completed.
\<close>

theorem counters_clear_counterexample:
  "misses (run (NewMemoryCache 10) [OpGet ''a'' 0]) = 1 \<and>
   misses (run (NewMemoryCache 10) [OpGet ''a'' 0, OpClear]) = 0 \<and>
   hits (run (NewMemoryCache 10) [OpGet ''a'' 0, OpClear]) = 0"
  by code_simp

section \<open>The request handlers\<close>

subsection \<open>A change of the pack sizes empties the cache\<close>

lemma Cache_Clear_miss: "snd (Cache_Get (Cache_Clear c) k now) = None"
  by (cases c) (simp_all add: Clear_def Get_def)

text \<open>
  Claim C7. An add or a delete of a pack size that succeeds (status 201, respectively
  200) calls \<open>Clear\<close> on the cache after the store has been changed and before the
  response is written, and in the handler it leaves behind a lookup of the key of any
  amount \<open>A\<close> and any configuration \<open>S\<close> misses.
\<close>

theorem mutation_clears_cache:
  "(AddPackSize h method body = (h', evs) \<and> last evs = EvRespond 201 \<longrightarrow>
      (\<exists>size'. evs = [EvPackSizeExists size', EvAddPackSize size', EvCacheClear, EvRespond 201]) \<and>
      cache h' = Cache_Clear (cache h) \<and>
      (\<forall>A S now. snd (Cache_Get (cache h') (GenerateCacheKey A S) now) = None)) \<and>
   (DeletePackSize h method' path = (h'', evs') \<and> last evs' = EvRespond 200 \<longrightarrow>
      (\<exists>size'. evs' = [EvDeletePackSize size', EvCacheClear, EvRespond 200]) \<and>
      cache h'' = Cache_Clear (cache h) \<and>
      (\<forall>A S now. snd (Cache_Get (cache h'') (GenerateCacheKey A S) now) = None))"
proof (intro conjI impI)
  assume a: "AddPackSize h method body = (h', evs) \<and> last evs = EvRespond 201"
  then have "(\<exists>size'. evs = [EvPackSizeExists size', EvAddPackSize size', EvCacheClear, EvRespond 201]) \<and>
      cache h' = Cache_Clear (cache h)"
    by (auto simp: AddPackSize_def split: if_splits option.splits sum.splits)
  then show "\<exists>size'. evs = [EvPackSizeExists size', EvAddPackSize size', EvCacheClear, EvRespond 201]"
    "cache h' = Cache_Clear (cache h)"
    "\<forall>A S now. snd (Cache_Get (cache h') (GenerateCacheKey A S) now) = None"
    by (simp_all add: Cache_Clear_miss)
next
  assume a: "DeletePackSize h method' path = (h'', evs') \<and> last evs' = EvRespond 200"
  then have "(\<exists>size'. evs' = [EvDeletePackSize size', EvCacheClear, EvRespond 200]) \<and>
      cache h'' = Cache_Clear (cache h)"
    by (auto simp: DeletePackSize_def Let_def split: if_splits option.splits sum.splits)
  then show "\<exists>size'. evs' = [EvDeletePackSize size', EvCacheClear, EvRespond 200]"
    "cache h'' = Cache_Clear (cache h)"
    "\<forall>A S now. snd (Cache_Get (cache h'') (GenerateCacheKey A S) now) = None"
    by (simp_all add: Cache_Clear_miss)
qed

text \<open>
  A cache that holds the result for \<open>A = 251\<close> over \<open>{250, 500}\<close>: after adding \<open>750\<close>, and
  after deleting \<open>500\<close>, the lookup for \<open>251\<close> misses.
\<close>

theorem mutation_clears_cache_witness:
  "snd (AddPackSize
         \<lparr> repo = \<lparr> pack_sizes = [250, 500], orders = [], db_ok = True \<rparr>,
           cache = Memory (Set (NewMemoryCache 1000) ''calc:251:250,500'' [(500, 1)] 500 3600 0) \<rparr>
         ''POST'' (Some 750)) =
     [EvPackSizeExists 750, EvAddPackSize 750, EvCacheClear, EvRespond 201] \<and>
   snd (Cache_Get
         (cache (fst (AddPackSize
           \<lparr> repo = \<lparr> pack_sizes = [250, 500], orders = [], db_ok = True \<rparr>,
             cache = Memory (Set (NewMemoryCache 1000) ''calc:251:250,500'' [(500, 1)] 500 3600 0) \<rparr>
           ''POST'' (Some 750))))
         (GenerateCacheKey 251 [250, 500, 750]) 1) = None \<and>
   snd (DeletePackSize
         \<lparr> repo = \<lparr> pack_sizes = [250, 500], orders = [], db_ok = True \<rparr>,
           cache = Memory (Set (NewMemoryCache 1000) ''calc:251:250,500'' [(500, 1)] 500 3600 0) \<rparr>
         ''DELETE'' ''/api/packs/500'') =
     [EvDeletePackSize 500, EvCacheClear, EvRespond 200] \<and>
   snd (Cache_Get
         (cache (fst (DeletePackSize
           \<lparr> repo = \<lparr> pack_sizes = [250, 500], orders = [], db_ok = True \<rparr>,
             cache = Memory (Set (NewMemoryCache 1000) ''calc:251:250,500'' [(500, 1)] 500 3600 0) \<rparr>
           ''DELETE'' ''/api/packs/500'')))
         (GenerateCacheKey 251 [250]) 1) = None"
proof -
  let ?h = "\<lparr> repo = \<lparr> pack_sizes = [250, 500], orders = [], db_ok = True \<rparr>,
           cache = Memory (Set (NewMemoryCache 1000) ''calc:251:250,500'' [(500, 1)] 500 3600 0) \<rparr>"
  have a: "snd (AddPackSize ?h ''POST'' (Some 750)) =
     [EvPackSizeExists 750, EvAddPackSize 750, EvCacheClear, EvRespond 201]"
    by (simp add: AddPackSize_def PackSizeExists_def Repository_AddPackSize_def)
  have "Atoi ''500'' = Some 500"
    by (simp add: Atoi_def is_digit_def undecimal_def digit_val_def)
  then have d: "snd (DeletePackSize ?h ''DELETE'' ''/api/packs/500'') =
     [EvDeletePackSize 500, EvCacheClear, EvRespond 200]"
    by (simp add: DeletePackSize_def Repository_DeletePackSize_def)
  have A1: "AddPackSize ?h ''POST'' (Some 750) =
      (fst (AddPackSize ?h ''POST'' (Some 750)), snd (AddPackSize ?h ''POST'' (Some 750)))"
    by (rule prod.collapse[symmetric])
  have A2: "last (snd (AddPackSize ?h ''POST'' (Some 750))) = EvRespond 201"
    by (simp add: a)
  have D1: "DeletePackSize ?h ''DELETE'' ''/api/packs/500'' =
      (fst (DeletePackSize ?h ''DELETE'' ''/api/packs/500''),
       snd (DeletePackSize ?h ''DELETE'' ''/api/packs/500''))"
    by (rule prod.collapse[symmetric])
  have D2: "last (snd (DeletePackSize ?h ''DELETE'' ''/api/packs/500'')) = EvRespond 200"
    by (simp add: d)
  show ?thesis
    using mutation_clears_cache[of ?h "''POST''" "Some 750"
        "fst (AddPackSize ?h ''POST'' (Some 750))" "snd (AddPackSize ?h ''POST'' (Some 750))"
        "''DELETE''" "''/api/packs/500''"
        "fst (DeletePackSize ?h ''DELETE'' ''/api/packs/500'')"
        "snd (DeletePackSize ?h ''DELETE'' ''/api/packs/500'')"]
      A1 A2 D1 D2 a d by blast
qed

subsection \<open>The limit of the order history\<close>

lemma Atoi_5000: "Atoi ''5000'' = Some 5000" "Atoi ''10'' = Some 10" "Atoi ''abc'' = None" "Atoi ''1001'' = Some 1001"
  by (simp_all add: Atoi_def is_digit_def undecimal_def digit_val_def)

text \<open>
  Claim C9. The order-history handler asks the journal for the number of records given
  by the \<open>limit\<close> parameter, and for \<open>100\<close> when the parameter is absent or not a positive
  number. The handler has no upper bound: for \<open>limit=5000\<close> it asks for \<open>5000\<close> records,
  where the documented maximum is \<open>1000\<close>.
\<close>

theorem orders_limit_not_capped:
  "snd (GetOrders h ''GET'' ''5000'') =
     [EvGetAllOrders 5000, EvRespond (if db_ok (repo h) then 200 else 500)] \<and>
   snd (GetOrders h ''GET'' ''10'') =
     [EvGetAllOrders 10, EvRespond (if db_ok (repo h) then 200 else 500)] \<and>
   snd (GetOrders h ''GET'' '''') =
     [EvGetAllOrders 100, EvRespond (if db_ok (repo h) then 200 else 500)] \<and>
   snd (GetOrders h ''GET'' ''abc'') =
     [EvGetAllOrders 100, EvRespond (if db_ok (repo h) then 200 else 500)]"
  by (simp add: GetOrders_def Atoi_5000 GetAllOrders_def)

end
